theory Spec2Isabelle
  imports Main "HOL-Library.AList"
begin

section \<open>The environment of the splitter\<close>

text \<open>
  The program of \<^verbatim>\<open>main.go\<close> reads one file line by line and copies every
  line to one of several output files. Its own code is short; what it does is decided
  together with four library objects it drives: the file system (\<^verbatim>\<open>os.Create\<close>,
  \<^verbatim>\<open>os.Open\<close>, \<^verbatim>\<open>Close\<close>), the buffered writer (\<^verbatim>\<open>bufio.Writer\<close>), the
  line scanner (\<^verbatim>\<open>bufio.Scanner\<close> with its default split function
  \<^verbatim>\<open>ScanLines\<close>) and the JSON path lookup (\<^verbatim>\<open>gjson.GetBytes\<close>).

  \<^item> A Go string and a Go byte slice are sequences of bytes: both are \<^typ>\<open>string\<close>
    here, a list of 8-bit \<^typ>\<open>char\<close>.
  \<^item> The file system is a map from a path to the bytes of the file. A path names one
    file: two different path strings are two different files.
  \<^item> An \<^verbatim>\<open>*os.File\<close> is a number into a table of open descriptors, each with its
    path and its write offset; closing removes the entry. A \<^verbatim>\<open>*bufio.Writer\<close> is a
    number into a table of writers. Both tables are part of the state, so two handles
    on one file (which a repeated category name produces) are two entries.
  \<^item> Whether a path can be created is a fixed property of the environment
    (\<open>nocreate\<close>). A write to an open descriptor succeeds: the storage does not run
    full. A write to a closed descriptor fails.
  \<^item> \<^verbatim>\<open>gjson.GetBytes\<close> followed by \<^verbatim>\<open>Exists\<close> and \<^verbatim>\<open>String\<close> is a parameter
    \<open>gj\<close> of the model: \<open>gj line path\<close> is \<open>None\<close> when the result does not exist
    and \<open>Some s\<close> with the string form of the value when it does.
\<close>

record fdesc =
  fd_path :: string
  fd_off :: nat

record bwriter =
  bw_fd :: nat
  bw_size :: nat
  bw_buf :: string
  bw_err :: bool

record world =
  fs :: "string \<rightharpoonup> string"
  fds :: "nat \<rightharpoonup> fdesc"
  wrs :: "nat \<rightharpoonup> bwriter"
  nextfd :: nat
  nextwr :: nat
  nocreate :: "string \<Rightarrow> bool"

datatype error =
    CreateFailed string
  | OpenFailed
  | WriteFailed nat
  | NewlineFailed nat
  | ReadFailed nat
  | NilWriter

abbreviation newline :: char where
  "newline \<equiv> CHR 0x0A"

abbreviation carriage_return :: char where
  "carriage_return \<equiv> CHR 0x0D"

subsection \<open>Files\<close>

text \<open>
  \<^verbatim>\<open>os.Create\<close> opens with \<^verbatim>\<open>O_RDWR|O_CREATE|O_TRUNC\<close>: the file is emptied and the
  new descriptor starts at offset 0. It fails where the environment refuses the path.
\<close>

definition os_Create :: "string \<Rightarrow> world \<Rightarrow> nat option \<times> world" where
  "os_Create name w =
     (if nocreate w name then (None, w)
      else (Some (nextfd w),
            w\<lparr>fs := (fs w)(name \<mapsto> []),
              fds := (fds w)(nextfd w \<mapsto> \<lparr>fd_path = name, fd_off = 0\<rparr>),
              nextfd := Suc (nextfd w)\<rparr>))"

text \<open>\<^verbatim>\<open>os.Open\<close> opens an existing file for reading and fails when there is none.\<close>

definition os_Open :: "string \<Rightarrow> world \<Rightarrow> nat option \<times> world" where
  "os_Open name w =
     (case fs w name of
        None \<Rightarrow> (None, w)
      | Some c \<Rightarrow>
          (Some (nextfd w),
           w\<lparr>fds := (fds w)(nextfd w \<mapsto> \<lparr>fd_path = name, fd_off = 0\<rparr>),
             nextfd := Suc (nextfd w)\<rparr>))"

definition file_Close :: "nat \<Rightarrow> world \<Rightarrow> world" where
  "file_Close fd w = w\<lparr>fds := (fds w)(fd := None)\<rparr>"

text \<open>
  A write through a descriptor replaces the bytes at the descriptor's offset (there is no
  \<^verbatim>\<open>O_APPEND\<close>), padding with zero bytes when the offset lies beyond the end, and
  advances the offset. The boolean is the error: \<open>True\<close> when the write failed.
\<close>

definition pwrite :: "string \<Rightarrow> nat \<Rightarrow> string \<Rightarrow> string" where
  "pwrite c off p =
     take off c @ replicate (off - length c) (CHR 0x00) @ p @ drop (off + length p) c"

definition file_Write :: "nat \<Rightarrow> string \<Rightarrow> world \<Rightarrow> bool \<times> world" where
  "file_Write fd p w =
     (case fds w fd of
        None \<Rightarrow> (True, w)
      | Some d \<Rightarrow>
          (case fs w (fd_path d) of
             None \<Rightarrow> (True, w)
           | Some c \<Rightarrow>
               (False,
                w\<lparr>fs := (fs w)(fd_path d \<mapsto> pwrite c (fd_off d) p),
                  fds := (fds w)(fd \<mapsto> d\<lparr>fd_off := fd_off d + length p\<rparr>)\<rparr>)))"

subsection \<open>Buffered writers\<close>

text \<open>
  \<^verbatim>\<open>bufio.NewWriterSize\<close> allocates a writer with an empty buffer of the given size.
  An error of the underlying file is sticky: once set, \<^verbatim>\<open>Write\<close>, \<^verbatim>\<open>WriteByte\<close> and
  \<^verbatim>\<open>Flush\<close> return it and do nothing.
\<close>

definition bufio_NewWriterSize :: "nat \<Rightarrow> nat \<Rightarrow> world \<Rightarrow> nat \<times> world" where
  "bufio_NewWriterSize file sz w =
     (nextwr w,
      w\<lparr>wrs := (wrs w)(nextwr w \<mapsto> \<lparr>bw_fd = file, bw_size = sz, bw_buf = [], bw_err = False\<rparr>),
        nextwr := Suc (nextwr w)\<rparr>)"

definition bufio_Flush :: "nat \<Rightarrow> world \<Rightarrow> bool \<times> world" where
  "bufio_Flush wr w =
     (case wrs w wr of
        None \<Rightarrow> (True, w)
      | Some b \<Rightarrow>
          if bw_err b then (True, w)
          else if bw_buf b = [] then (False, w)
          else (case file_Write (bw_fd b) (bw_buf b) w of
                  (True, w1) \<Rightarrow> (True, w1\<lparr>wrs := (wrs w1)(wr \<mapsto> b\<lparr>bw_err := True\<rparr>)\<rparr>)
                | (False, w1) \<Rightarrow> (False, w1\<lparr>wrs := (wrs w1)(wr \<mapsto> b\<lparr>bw_buf := []\<rparr>)\<rparr>)))"

text \<open>
  Data that does not fit into the free part of the buffer goes straight to the file
  when the buffer is empty; otherwise it fills the buffer, the buffer is flushed, and
  the remainder is treated the same way.
\<close>

definition bufio_put :: "nat \<Rightarrow> string \<Rightarrow> world \<Rightarrow> bool \<times> world" where
  "bufio_put wr p w =
     (case wrs w wr of
        None \<Rightarrow> (True, w)
      | Some b \<Rightarrow>
          if length p \<le> bw_size b - length (bw_buf b)
          then (False, w\<lparr>wrs := (wrs w)(wr \<mapsto> b\<lparr>bw_buf := bw_buf b @ p\<rparr>)\<rparr>)
          else (case file_Write (bw_fd b) p w of
                  (True, w1) \<Rightarrow> (True, w1\<lparr>wrs := (wrs w1)(wr \<mapsto> b\<lparr>bw_err := True\<rparr>)\<rparr>)
                | (False, w1) \<Rightarrow> (False, w1)))"

definition bufio_Write :: "nat \<Rightarrow> string \<Rightarrow> world \<Rightarrow> bool \<times> world" where
  "bufio_Write wr p w =
     (case wrs w wr of
        None \<Rightarrow> (True, w)
      | Some b \<Rightarrow>
          if bw_err b then (True, w)
          else if length p \<le> bw_size b - length (bw_buf b) \<or> bw_buf b = []
          then bufio_put wr p w
          else
            (let n = bw_size b - length (bw_buf b);
                 w1 = w\<lparr>wrs := (wrs w)(wr \<mapsto> b\<lparr>bw_buf := bw_buf b @ take n p\<rparr>)\<rparr>
             in case bufio_Flush wr w1 of
                  (True, w2) \<Rightarrow> (True, w2)
                | (False, w2) \<Rightarrow> bufio_put wr (drop n p) w2))"

definition bufio_WriteByte :: "nat \<Rightarrow> char \<Rightarrow> world \<Rightarrow> bool \<times> world" where
  "bufio_WriteByte wr c w =
     (case wrs w wr of
        None \<Rightarrow> (True, w)
      | Some b \<Rightarrow>
          if bw_err b then (True, w)
          else if bw_size b \<le> length (bw_buf b)
          then (case bufio_Flush wr w of
                  (True, w1) \<Rightarrow> (True, w1)
                | (False, w1) \<Rightarrow>
                    (False, w1\<lparr>wrs := (wrs w1)(wr \<mapsto> b\<lparr>bw_buf := [c]\<rparr>)\<rparr>))
          else (False, w\<lparr>wrs := (wrs w)(wr \<mapsto> b\<lparr>bw_buf := bw_buf b @ [c]\<rparr>)\<rparr>))"

subsection \<open>The line scanner\<close>

text \<open>
  \<^verbatim>\<open>bufio.Scanner\<close> with \<^verbatim>\<open>ScanLines\<close>: a token is the data up to the next newline
  byte, or up to the end of the input when the last line has no newline; the newline
  is consumed and one carriage return in front of it is dropped from the token. Empty
  input left means no token. The scanner gives up with \<^verbatim>\<open>ErrTooLong\<close> when the data of
  one line, the carriage return included, does not leave room for its newline in a
  buffer of the maximum size: when it has at least that many bytes.

  The scanner's reads are taken at once, when the scanner is made. In
  \<^verbatim>\<open>ProcessFile\<close> that is after the output files were created, and a run writes only
  to them; an input path that is one of them was emptied by then.
\<close>

record scanner =
  sc_data :: string
  sc_tok :: string
  sc_err :: bool
  sc_max :: nat

definition dropCR :: "string \<Rightarrow> string" where
  "dropCR data = (if data \<noteq> [] \<and> last data = carriage_return then butlast data else data)"

definition bufio_NewScanner :: "nat \<Rightarrow> world \<Rightarrow> scanner" where
  "bufio_NewScanner file w =
     \<lparr>sc_data = (case fds w file of
                   None \<Rightarrow> []
                 | Some d \<Rightarrow> (case fs w (fd_path d) of None \<Rightarrow> [] | Some c \<Rightarrow> drop (fd_off d) c)),
      sc_tok = [], sc_err = False, sc_max = 64 * 1024\<rparr>"

definition Buffer :: "scanner \<Rightarrow> nat \<Rightarrow> scanner" where
  "Buffer s mx = s\<lparr>sc_max := mx\<rparr>"

definition Scan :: "scanner \<Rightarrow> bool \<times> scanner" where
  "Scan s =
     (if sc_err s \<or> sc_data s = [] then (False, s)
      else let seg = takeWhile (\<lambda>c. c \<noteq> newline) (sc_data s) in
        if sc_max s \<le> length seg then (False, s\<lparr>sc_err := True\<rparr>)
        else (True, s\<lparr>sc_data := drop (Suc (length seg)) (sc_data s), sc_tok := dropCR seg\<rparr>))"

definition Bytes :: "scanner \<Rightarrow> string" where
  "Bytes s = sc_tok s"

section \<open>The chromosome processor\<close>

definition UnknownChr :: string where
  "UnknownChr = ''unknown_chr''"

text \<open>
  The three Go maps of the struct: \<open>chrSet\<close> is only looked up, so it is a map; the two
  maps of writers and files are also iterated, so they are association lists with one
  entry per key. Go iterates a map in no fixed order; the model takes the list's order.
\<close>

record ChromosomeProcessor =
  inputFile :: string
  prefix :: string
  chrFieldName :: string
  chrNames :: "string list"
  chrSet :: "string \<rightharpoonup> bool"
  outputWriters :: "(string \<times> nat) list"
  outputFiles :: "(string \<times> nat) list"

definition NewChromosomeProcessor ::
  "string \<Rightarrow> string \<Rightarrow> string \<Rightarrow> string list \<Rightarrow> ChromosomeProcessor" where
  "NewChromosomeProcessor inp pre fld names =
     \<lparr>inputFile = inp, prefix = pre, chrFieldName = fld, chrNames = names,
      chrSet = foldl (\<lambda>m chr. m(chr \<mapsto> True)) Map.empty names,
      outputWriters = [], outputFiles = []\<rparr>"

text \<open>Reading a Go \<^verbatim>\<open>map[string]bool\<close> at a missing key gives \<^verbatim>\<open>false\<close>.\<close>

definition chrSet_at :: "ChromosomeProcessor \<Rightarrow> string \<Rightarrow> bool" where
  "chrSet_at cp chr = (case chrSet cp chr of None \<Rightarrow> False | Some b \<Rightarrow> b)"

definition FlushAllWriters :: "ChromosomeProcessor \<Rightarrow> world \<Rightarrow> world" where
  "FlushAllWriters cp w = foldl (\<lambda>w1 (chr, writer). snd (bufio_Flush writer w1)) w (outputWriters cp)"

definition CloseAllFiles :: "ChromosomeProcessor \<Rightarrow> world \<Rightarrow> world" where
  "CloseAllFiles cp w =
     foldl (\<lambda>w1 (chr, file). file_Close file w1) (FlushAllWriters cp w) (outputFiles cp)"

text \<open>
  \<^verbatim>\<open>InitializeOutputFiles\<close>: \<open>filename\<close> is the path that \<^verbatim>\<open>fmt.Sprintf\<close> builds for a
  category, and \<open>createAll\<close> is the loop over the declared names followed by the
  sentinel. A creation that fails closes what the maps hold and ends the loop.
\<close>

definition filename :: "ChromosomeProcessor \<Rightarrow> string \<Rightarrow> string" where
  "filename cp chr = prefix cp @ ''_'' @ chr @ ''.jsonl''"

fun createAll ::
  "string list \<Rightarrow> ChromosomeProcessor \<Rightarrow> world \<Rightarrow> error option \<times> ChromosomeProcessor \<times> world" where
  "createAll [] cp w = (None, cp, w)"
| "createAll (chr # rest) cp w =
     (case os_Create (filename cp chr) w of
        (None, w1) \<Rightarrow> (Some (CreateFailed (filename cp chr)), cp, CloseAllFiles cp w1)
      | (Some file, w1) \<Rightarrow>
          (case bufio_NewWriterSize file (4 * 1024 * 1024) w1 of
             (writer, w2) \<Rightarrow>
               createAll rest
                 (cp\<lparr>outputFiles := AList.update chr file (outputFiles cp),
                     outputWriters := AList.update chr writer (outputWriters cp)\<rparr>) w2))"

definition InitializeOutputFiles ::
  "ChromosomeProcessor \<Rightarrow> world \<Rightarrow> error option \<times> ChromosomeProcessor \<times> world" where
  "InitializeOutputFiles cp w = createAll (chrNames cp @ [UnknownChr]) cp w"

text \<open>A missing key and a missing fallback give Go's nil pointer: \<open>None\<close>.\<close>

definition GetOutputWriter :: "ChromosomeProcessor \<Rightarrow> string \<Rightarrow> nat option" where
  "GetOutputWriter cp chr =
     (case map_of (outputWriters cp) chr of
        Some writer \<Rightarrow> Some writer
      | None \<Rightarrow> map_of (outputWriters cp) UnknownChr)"

definition ExtractChromosome ::
  "(string \<Rightarrow> string \<Rightarrow> string option) \<Rightarrow> ChromosomeProcessor \<Rightarrow> string \<Rightarrow> string \<times> bool" where
  "ExtractChromosome gj cp line =
     (case gj line (chrFieldName cp) of
        None \<Rightarrow> ([], False)
      | Some s \<Rightarrow> (s, True))"

text \<open>The routing decision of the loop body: lines 117 to 120 of \<^verbatim>\<open>main.go\<close>.\<close>

definition outputChr :: "ChromosomeProcessor \<Rightarrow> string \<Rightarrow> bool \<Rightarrow> string" where
  "outputChr cp chr found = (if found \<and> chrSet_at cp chr then chr else UnknownChr)"

text \<open>
  The scan loop. It returns the error of the body, if any, the line counter, the
  scanner and the state. Every successful \<^verbatim>\<open>Scan\<close> consumes input, which is why the
  loop ends.
\<close>

function scanLoop ::
  "(string \<Rightarrow> string \<Rightarrow> string option) \<Rightarrow> ChromosomeProcessor \<Rightarrow> nat \<Rightarrow> scanner \<Rightarrow> world
     \<Rightarrow> error option \<times> nat \<times> scanner \<times> world" where
  "scanLoop gj cp lineNum s w =
     (if fst (Scan s) then
        (let s1 = snd (Scan s);
             lineNum1 = lineNum + 1;
             line = Bytes s1
         in if length line = 0 then scanLoop gj cp lineNum1 s1 w
            else
              (case ExtractChromosome gj cp line of
                 (chr, found) \<Rightarrow>
                   (case GetOutputWriter cp (outputChr cp chr found) of
                      None \<Rightarrow> (Some NilWriter, lineNum1, s1, w)
                    | Some writer \<Rightarrow>
                        (case bufio_Write writer line w of
                           (True, w1) \<Rightarrow> (Some (WriteFailed lineNum1), lineNum1, s1, w1)
                         | (False, w1) \<Rightarrow>
                             (case bufio_WriteByte writer newline w1 of
                                (True, w2) \<Rightarrow> (Some (NewlineFailed lineNum1), lineNum1, s1, w2)
                              | (False, w2) \<Rightarrow> scanLoop gj cp lineNum1 s1 w2)))))
      else (None, lineNum, snd (Scan s), w))"
  by pat_completeness auto
termination
proof (relation "measure (\<lambda>(gj, cp, lineNum, s, w). length (sc_data s))")
  show "wf (measure (\<lambda>(gj, cp, lineNum, s, w). length (sc_data s)))"
    by simp
qed (auto simp: Scan_def Let_def split: if_splits)

text \<open>
  \<^verbatim>\<open>ProcessFile\<close>. The two deferred calls run on every way out after they were
  registered, the later one first: the input file is closed, then \<^verbatim>\<open>CloseAllFiles\<close>.
  The error of \<^verbatim>\<open>Flush\<close> is dropped by \<^verbatim>\<open>FlushAllWriters\<close>, as in the source.
\<close>

definition ProcessFile ::
  "(string \<Rightarrow> string \<Rightarrow> string option) \<Rightarrow> ChromosomeProcessor \<Rightarrow> world
     \<Rightarrow> error option \<times> ChromosomeProcessor \<times> world" where
  "ProcessFile gj cp w =
     (case InitializeOutputFiles cp w of
        (Some err, cp1, w1) \<Rightarrow> (Some err, cp1, w1)
      | (None, cp1, w1) \<Rightarrow>
          (case os_Open (inputFile cp1) w1 of
             (None, w2) \<Rightarrow> (Some OpenFailed, cp1, CloseAllFiles cp1 w2)
           | (Some file, w2) \<Rightarrow>
               (let scanner = Buffer (bufio_NewScanner file w2) (10 * 1024 * 1024)
                in case scanLoop gj cp1 0 scanner w2 of
                     (Some err, lineNum, scanner1, w3) \<Rightarrow>
                       (Some err, cp1, CloseAllFiles cp1 (file_Close file w3))
                   | (None, lineNum, scanner1, w3) \<Rightarrow>
                       if sc_err scanner1
                       then (Some (ReadFailed lineNum), cp1, CloseAllFiles cp1 (file_Close file w3))
                       else (None, cp1,
                             CloseAllFiles cp1 (file_Close file (FlushAllWriters cp1 w3))))))"

section \<open>Notions for stating the properties\<close>

subsection \<open>What the scanner delivers\<close>

text \<open>
  The records of an input are its byte sequences between newline bytes, as in the data
  model of the spec; a last record need not end in a newline. \<open>scanned mx data\<close> is the
  list of tokens that repeated \<^verbatim>\<open>Scan\<close> delivers with the maximum \<open>mx\<close>: the records in
  front of the first one that does not fit, each without one trailing carriage return.
  \<open>tooLong mx data\<close> says that there is a record that does not fit, so that the scanner
  ends with its error.
\<close>

function records :: "string \<Rightarrow> string list" where
  "records data =
     (if data = [] then []
      else takeWhile (\<lambda>c. c \<noteq> newline) data
             # records (drop (Suc (length (takeWhile (\<lambda>c. c \<noteq> newline) data))) data))"
  by pat_completeness auto
termination
  by (relation "measure length") auto

definition scanned :: "nat \<Rightarrow> string \<Rightarrow> string list" where
  "scanned mx data = map dropCR (takeWhile (\<lambda>r. length r < mx) (records data))"

definition tooLong :: "nat \<Rightarrow> string \<Rightarrow> bool" where
  "tooLong mx data = list_ex (\<lambda>r. mx \<le> length r) (records data)"

subsection \<open>Where a line goes and what a file holds\<close>

text \<open>
  \<open>route\<close> is the category a line is written under: the extraction followed by the routing
  decision. \<open>routed gj cp chr ls\<close> are the lines of \<open>ls\<close> that are not empty and go to
  \<open>chr\<close>, in the order of \<open>ls\<close>, and \<open>emit ls\<close> is the content of a file made of the lines
  \<open>ls\<close>, each followed by one newline byte.
\<close>

definition route ::
  "(string \<Rightarrow> string \<Rightarrow> string option) \<Rightarrow> ChromosomeProcessor \<Rightarrow> string \<Rightarrow> string" where
  "route gj cp line = (case ExtractChromosome gj cp line of (chr, found) \<Rightarrow> outputChr cp chr found)"

definition routed ::
  "(string \<Rightarrow> string \<Rightarrow> string option) \<Rightarrow> ChromosomeProcessor \<Rightarrow> string \<Rightarrow> string list \<Rightarrow> string list" where
  "routed gj cp chr ls = filter (\<lambda>l. l \<noteq> [] \<and> route gj cp l = chr) ls"

definition emit :: "string list \<Rightarrow> string" where
  "emit ls = concat (map (\<lambda>l. l @ [newline]) ls)"

subsection \<open>Streams\<close>

text \<open>
  \<open>stream cp w chr content buf\<close> says that the category \<open>chr\<close> has a working stream in the
  state \<open>w\<close>: a writer and a file under \<open>chr\<close> in the two maps, the writer without error
  and with \<open>buf\<close> in its buffer, the file's descriptor open on the category's path, at the
  end of the file, and the file with \<open>content\<close> on disk. \<open>set_stream\<close> puts new bytes on
  disk and into the buffer of that stream and leaves everything else as it is.

  \<open>streams cp w base out\<close> is the invariant of a run: every key of the maps has a stream,
  and what is on disk followed by what is buffered is \<open>out chr\<close>; every path that is no
  output path holds what it holds in \<open>base\<close>. \<open>settled cp w\<close> is the state of the streams
  after \<^verbatim>\<open>CloseAllFiles\<close>: every writer of the map has an empty buffer and no error, every
  file of the map is closed.
\<close>

definition stream :: "ChromosomeProcessor \<Rightarrow> world \<Rightarrow> string \<Rightarrow> string \<Rightarrow> string \<Rightarrow> bool" where
  "stream cp w chr content buf \<longleftrightarrow>
     (\<exists>wr file sz.
        map_of (outputWriters cp) chr = Some wr \<and> map_of (outputFiles cp) chr = Some file \<and>
        wr < nextwr w \<and> file < nextfd w \<and>
        wrs w wr = Some \<lparr>bw_fd = file, bw_size = sz, bw_buf = buf, bw_err = False\<rparr> \<and>
        fds w file = Some \<lparr>fd_path = filename cp chr, fd_off = length content\<rparr> \<and>
        fs w (filename cp chr) = Some content)"

definition set_stream :: "ChromosomeProcessor \<Rightarrow> string \<Rightarrow> string \<Rightarrow> string \<Rightarrow> world \<Rightarrow> world" where
  "set_stream cp chr content buf w =
     (case map_of (outputWriters cp) chr of
        None \<Rightarrow> w
      | Some wr \<Rightarrow>
          (case map_of (outputFiles cp) chr of
             None \<Rightarrow> w
           | Some file \<Rightarrow>
               (case wrs w wr of
                  None \<Rightarrow> w
                | Some b \<Rightarrow>
                    w\<lparr>fs := (fs w)(filename cp chr \<mapsto> content),
                      fds := (fds w)(file \<mapsto> \<lparr>fd_path = filename cp chr, fd_off = length content\<rparr>),
                      wrs := (wrs w)(wr \<mapsto> b\<lparr>bw_buf := buf\<rparr>)\<rparr>)))"

definition keys :: "ChromosomeProcessor \<Rightarrow> string set" where
  "keys cp = fst ` set (outputWriters cp)"

definition streams ::
  "ChromosomeProcessor \<Rightarrow> world \<Rightarrow> (string \<rightharpoonup> string) \<Rightarrow> (string \<Rightarrow> string) \<Rightarrow> bool" where
  "streams cp w base out \<longleftrightarrow>
     distinct (map fst (outputWriters cp)) \<and> distinct (map fst (outputFiles cp)) \<and>
     fst ` set (outputFiles cp) = keys cp \<and>
     (\<forall>chr\<in>keys cp. \<exists>c b. stream cp w chr c b \<and> c @ b = out chr) \<and>
     (\<forall>q. q \<notin> filename cp ` keys cp \<longrightarrow> fs w q = base q)"

definition settled :: "ChromosomeProcessor \<Rightarrow> world \<Rightarrow> bool" where
  "settled cp w \<longleftrightarrow>
     (\<forall>(chr, wr)\<in>set (outputWriters cp). \<exists>b. wrs w wr = Some b \<and> bw_buf b = [] \<and> \<not> bw_err b) \<and>
     (\<forall>(chr, fd)\<in>set (outputFiles cp). fds w fd = None)"

definition cfg :: "ChromosomeProcessor \<Rightarrow> string \<times> string \<times> string \<times> string list \<times> (string \<rightharpoonup> bool)" where
  "cfg cp = (inputFile cp, prefix cp, chrFieldName cp, chrNames cp, chrSet cp)"

text \<open>
  \<open>open_paths w\<close> gives the path of every descriptor that is open in \<open>w\<close>.
\<close>

definition open_paths :: "world \<Rightarrow> (nat \<rightharpoonup> string)" where
  "open_paths w = (\<lambda>fd. map_option fd_path (fds w fd))"

subsection \<open>The outcome of a run\<close>

text \<open>
  \<open>read_input cp w\<close> is the input as a run started in \<open>w\<close> reads it: the bytes of the
  input file, or nothing when the input path is one of the run's own output paths, which
  \<^verbatim>\<open>os.Create\<close> empties before the input is opened; \<open>None\<close> when there is no such file.
  \<open>lines_read\<close> are the lines the scan loop gets from it and \<open>run_result\<close> is the error
  of the run once the output files exist.

  \<open>final_result\<close> and \<open>final_fs\<close> give the error and the file system at the end of a
  run for every start: when some output file cannot be created, the error names the first
  such file and the files in front of it are left empty; otherwise every output file holds
  the lines routed to it.
\<close>

definition read_input :: "ChromosomeProcessor \<Rightarrow> world \<Rightarrow> string option" where
  "read_input cp w =
     (if inputFile cp \<in> filename cp ` set (chrNames cp @ [UnknownChr]) then Some []
      else fs w (inputFile cp))"

definition lines_read :: "ChromosomeProcessor \<Rightarrow> world \<Rightarrow> string list" where
  "lines_read cp w =
     (case read_input cp w of None \<Rightarrow> [] | Some d \<Rightarrow> scanned (10 * 1024 * 1024) d)"

definition run_result :: "ChromosomeProcessor \<Rightarrow> world \<Rightarrow> error option" where
  "run_result cp w =
     (case read_input cp w of
        None \<Rightarrow> Some OpenFailed
      | Some d \<Rightarrow>
          if tooLong (10 * 1024 * 1024) d
          then Some (ReadFailed (length (scanned (10 * 1024 * 1024) d)))
          else None)"

definition allChrs :: "ChromosomeProcessor \<Rightarrow> string list" where
  "allChrs cp = chrNames cp @ [UnknownChr]"

definition creatable :: "ChromosomeProcessor \<Rightarrow> world \<Rightarrow> string \<Rightarrow> bool" where
  "creatable cp w chr \<longleftrightarrow> \<not> nocreate w (filename cp chr)"

definition final_result :: "ChromosomeProcessor \<Rightarrow> world \<Rightarrow> error option" where
  "final_result cp w =
     (case dropWhile (creatable cp w) (allChrs cp) of
        [] \<Rightarrow> run_result cp w
      | c # _ \<Rightarrow> Some (CreateFailed (filename cp c)))"

definition final_fs ::
  "(string \<Rightarrow> string \<Rightarrow> string option) \<Rightarrow> ChromosomeProcessor \<Rightarrow> world \<Rightarrow> (string \<rightharpoonup> string)" where
  "final_fs gj cp w =
     (case dropWhile (creatable cp w) (allChrs cp) of
        [] \<Rightarrow> fs w ++ map_of (map (\<lambda>k. (filename cp k, emit (routed gj cp k (lines_read cp w)))) (allChrs cp))
      | c # _ \<Rightarrow> fs w ++ map_of (map (\<lambda>k. (filename cp k, [])) (takeWhile (creatable cp w) (allChrs cp))))"

text \<open>
  The list without its repeated names: every name stays where it occurs first.
\<close>

fun dedup :: "'a list \<Rightarrow> 'a list" where
  "dedup [] = []"
| "dedup (x # xs) = x # dedup (removeAll x xs)"

subsection \<open>Example runs\<close>

text \<open>
  The example of the spec: the categories \<^verbatim>\<open>chr1,chr2\<close>, the prefix \<^verbatim>\<open>out\<close>, and three
  records, here with a CR LF line end, a blank line and no newline after the last record.
  \<open>sample_gjson\<close> is what the lookup of the field \<^verbatim>\<open>chr\<close> answers on these records; the
  state has the input file and nothing else. Further inputs: one line with CR LF; a line
  of more than 10 MB between two records; a category list with a repeated name in an
  environment that refuses one of the output paths; and the categories \<^verbatim>\<open>chr1,chr1\<close>.
\<close>

definition sample_gjson :: "string \<Rightarrow> string \<Rightarrow> string option" where
  \<open>sample_gjson line path =
     (if path = ''chr''
      then map_of [(''{"chr":"chr1","v":1}'', ''chr1''),
                   (''{"chr":"chr2","v":2}'', ''chr2''),
                   (''{"chr":"chrZZZ"}'', ''chrZZZ'')] line
      else None)\<close>

definition sample_world :: "string \<Rightarrow> world" where
  "sample_world data =
     \<lparr>fs = [''in.jsonl'' \<mapsto> data], fds = Map.empty, wrs = Map.empty,
      nextfd = 3, nextwr = 0, nocreate = (\<lambda>_. False)\<rparr>"

definition sample_processor :: ChromosomeProcessor where
  "sample_processor = NewChromosomeProcessor ''in.jsonl'' ''out'' ''chr'' [''chr1'', ''chr2'']"

definition sample_input :: string where
  \<open>sample_input =
     ''{"chr":"chr1","v":1}'' @ [carriage_return, newline] @ [newline] @
     ''{"chr":"chr2","v":2}'' @ [newline] @ ''{"v":3}''\<close>


definition long_line :: string where
  "long_line = replicate (10 * 1024 * 1024 + 1) (CHR ''a'')"

definition oversized_input :: string where
  \<open>oversized_input =
     ''{"chr":"chr1","v":1}'' @ [newline] @ long_line @ [newline] @ ''{"chr":"chr2","v":2}''\<close>

definition repeated_processor :: ChromosomeProcessor where
  "repeated_processor = NewChromosomeProcessor ''in.jsonl'' ''out'' ''chr'' [''a'', ''a'', ''x/y'']"

definition nodir_world :: world where
  "nodir_world =
     \<lparr>fs = [''in.jsonl'' \<mapsto> []], fds = Map.empty, wrs = Map.empty,
      nextfd = 3, nextwr = 0, nocreate = (\<lambda>name. name = ''out_x/y.jsonl'')\<rparr>"

definition twice_processor :: ChromosomeProcessor where
  "twice_processor = NewChromosomeProcessor ''in.jsonl'' ''out'' ''chr'' [''chr1'', ''chr1'']"

declare scanLoop.simps [simp del]

declare records.simps [simp del]

section \<open>One stream under the buffered writer\<close>

text \<open>
  Every operation of the buffered writer on a working stream succeeds and is a
  \<open>set_stream\<close>: what is on disk followed by what is buffered grows by the bytes written,
  whichever way the buffer was flushed on the way.
\<close>

lemma filename_inj [simp]: "filename cp a = filename cp b \<longleftrightarrow> a = b"
  by (simp add: filename_def)

lemma pwrite_end [simp]: "pwrite c (length c) p = c @ p"
  by (simp add: pwrite_def)

lemma stream_set_same:
  "stream cp w chr c b \<Longrightarrow> stream cp (set_stream cp chr c' b' w) chr c' b'"
  by (auto simp: stream_def set_stream_def)

lemma stream_set_other:
  assumes "stream cp w chr c b" "stream cp w chr' c0 b0" "chr' \<noteq> chr"
  shows "stream cp (set_stream cp chr c' b' w) chr' c0 b0"
  using assms by (auto simp: stream_def set_stream_def)

lemma set_stream_frame [simp]:
  "q \<noteq> filename cp chr \<Longrightarrow> fs (set_stream cp chr c b w) q = fs w q"
  "nextfd (set_stream cp chr c b w) = nextfd w"
  "nextwr (set_stream cp chr c b w) = nextwr w"
  "nocreate (set_stream cp chr c b w) = nocreate w"
  by (auto simp: set_stream_def split: option.splits)

lemma stream_Flush:
  assumes "stream cp w chr c b" "map_of (outputWriters cp) chr = Some wr"
  shows "bufio_Flush wr w = (False, set_stream cp chr (c @ b) [] w)"
  using assms
  by (auto simp: stream_def set_stream_def bufio_Flush_def file_Write_def map_upd_triv)

lemma set_stream_twice:
  "stream cp w chr c0 b0 \<Longrightarrow>
     set_stream cp chr c' b' (set_stream cp chr c b w) = set_stream cp chr c' b' w"
  by (auto simp: stream_def set_stream_def)

lemma stream_append_buf:
  assumes "stream cp w chr c b" "map_of (outputWriters cp) chr = Some wr" "wrs w wr = Some bw"
  shows "w\<lparr>wrs := (wrs w)(wr \<mapsto> bw\<lparr>bw_buf := b'\<rparr>)\<rparr> = set_stream cp chr c b' w"
  using assms by (auto simp: stream_def set_stream_def map_upd_triv)

lemma stream_put:
  assumes "stream cp w chr c b" "map_of (outputWriters cp) chr = Some wr"
    "wrs w wr = Some bw" "b = [] \<or> length p \<le> bw_size bw - length b"
  shows "\<exists>c' b'. bufio_put wr p w = (False, set_stream cp chr c' b' w) \<and> c' @ b' = c @ b @ p"
proof (cases "length p \<le> bw_size bw - length b")
  case True
  with assms have "bufio_put wr p w = (False, set_stream cp chr c (b @ p) w)"
    by (auto simp: stream_def set_stream_def bufio_put_def map_upd_triv)
  then show ?thesis by auto
next
  case False
  with assms have "b = []" by simp
  with False assms have "bufio_put wr p w = (False, set_stream cp chr (c @ p) [] w)"
    by (auto simp: stream_def set_stream_def bufio_put_def file_Write_def map_upd_triv)
  with \<open>b = []\<close> show ?thesis by auto
qed

lemma stream_Write:
  assumes "stream cp w chr c b" "map_of (outputWriters cp) chr = Some wr"
  shows "\<exists>c' b'. bufio_Write wr p w = (False, set_stream cp chr c' b' w) \<and> c' @ b' = c @ b @ p"
proof -
  from assms obtain bw where bw: "wrs w wr = Some bw" "bw_buf bw = b" "\<not> bw_err bw"
    by (auto simp: stream_def)
  show ?thesis
  proof (cases "length p \<le> bw_size bw - length b \<or> b = []")
    case True
    then have "bufio_Write wr p w = bufio_put wr p w"
      using bw by (simp add: bufio_Write_def)
    moreover from True have "b = [] \<or> length p \<le> bw_size bw - length b" by auto
    ultimately show ?thesis
      using stream_put [OF assms bw(1)] by simp
  next
    case False
    define n where "n = bw_size bw - length b"
    define w1 where "w1 = w\<lparr>wrs := (wrs w)(wr \<mapsto> bw\<lparr>bw_buf := b @ take n p\<rparr>)\<rparr>"
    have w1: "w1 = set_stream cp chr c (b @ take n p) w"
      unfolding w1_def by (rule stream_append_buf [OF assms bw(1)])
    have s1: "stream cp w1 chr c (b @ take n p)"
      unfolding w1 by (rule stream_set_same [OF assms(1)])
    define w2 where "w2 = set_stream cp chr (c @ b @ take n p) [] w1"
    have fl: "bufio_Flush wr w1 = (False, w2)"
      using stream_Flush [OF s1 assms(2)] by (simp add: w2_def)
    have s2: "stream cp w2 chr (c @ b @ take n p) []"
      unfolding w2_def by (rule stream_set_same [OF s1])
    from s2 assms(2) obtain bw2 where bw2: "wrs w2 wr = Some bw2"
      by (auto simp: stream_def)
    from stream_put [OF s2 assms(2) bw2, of "drop n p"]
    obtain c' b' where put: "bufio_put wr (drop n p) w2 = (False, set_stream cp chr c' b' w2)"
      and eq: "c' @ b' = (c @ b @ take n p) @ [] @ drop n p"
      by auto
    have "bufio_Write wr p w = bufio_put wr (drop n p) w2"
      using False bw fl by (simp add: bufio_Write_def Let_def n_def w1_def)
    moreover have "set_stream cp chr c' b' w2 = set_stream cp chr c' b' w"
      unfolding w2_def w1
      by (simp add: set_stream_twice [OF s1] set_stream_twice [OF assms(1)])
    ultimately show ?thesis using put eq by auto
  qed
qed

lemma stream_WriteByte:
  assumes "stream cp w chr c b" "map_of (outputWriters cp) chr = Some wr"
  shows "\<exists>c' b'. bufio_WriteByte wr x w = (False, set_stream cp chr c' b' w) \<and> c' @ b' = c @ b @ [x]"
proof -
  from assms obtain bw where bw: "wrs w wr = Some bw" "bw_buf bw = b" "\<not> bw_err bw"
    by (auto simp: stream_def)
  show ?thesis
  proof (cases "bw_size bw \<le> length b")
    case True
    define w1 where "w1 = set_stream cp chr (c @ b) [] w"
    have fl: "bufio_Flush wr w = (False, w1)"
      using stream_Flush [OF assms] by (simp add: w1_def)
    have s1: "stream cp w1 chr (c @ b) []"
      unfolding w1_def by (rule stream_set_same [OF assms(1)])
    from s1 assms(2) obtain bw1 where bw1: "wrs w1 wr = Some bw1"
      by (auto simp: stream_def)
    have "bw1 = bw\<lparr>bw_buf := []\<rparr>"
      using bw1 bw assms by (auto simp: w1_def stream_def set_stream_def)
    then have "w1\<lparr>wrs := (wrs w1)(wr \<mapsto> bw\<lparr>bw_buf := [x]\<rparr>)\<rparr> = set_stream cp chr (c @ b) [x] w1"
      using stream_append_buf [OF s1 assms(2) bw1, of "[x]"] by simp
    also have "\<dots> = set_stream cp chr (c @ b) [x] w"
      unfolding w1_def by (rule set_stream_twice [OF assms(1)])
    finally have "bufio_WriteByte wr x w = (False, set_stream cp chr (c @ b) [x] w)"
      using True bw fl by (simp add: bufio_WriteByte_def)
    then show ?thesis
      by (intro exI [of _ "c @ b"] exI [of _ "[x]"]) simp
  next
    case False
    then have "bufio_WriteByte wr x w = (False, w\<lparr>wrs := (wrs w)(wr \<mapsto> bw\<lparr>bw_buf := b @ [x]\<rparr>)\<rparr>)"
      using bw by (simp add: bufio_WriteByte_def)
    then show ?thesis
      using stream_append_buf [OF assms bw(1), of "b @ [x]"] by auto
  qed
qed

section \<open>The invariant of a run\<close>

lemma streams_set_stream:
  assumes "streams cp w base out" "chr \<in> keys cp" "stream cp w chr c b"
  shows "streams cp (set_stream cp chr c' b' w) base (out(chr := c' @ b'))"
proof -
  have "\<exists>c1 b1. stream cp (set_stream cp chr c' b' w) k c1 b1 \<and> c1 @ b1 = (out(chr := c' @ b')) k"
    if "k \<in> keys cp" for k
  proof (cases "k = chr")
    case True
    then show ?thesis using stream_set_same [OF assms(3)] by auto
  next
    case False
    from assms(1) that obtain c0 b0 where "stream cp w k c0 b0" "c0 @ b0 = out k"
      by (auto simp: streams_def)
    have "stream cp (set_stream cp chr c' b' w) k c0 b0"
      by (rule stream_set_other [OF assms(3) \<open>stream cp w k c0 b0\<close> False])
    with False \<open>c0 @ b0 = out k\<close> show ?thesis by auto
  qed
  moreover have "fs (set_stream cp chr c' b' w) q = base q" if "q \<notin> filename cp ` keys cp" for q
  proof -
    from that assms(2) have "q \<noteq> filename cp chr" by auto
    then show ?thesis using assms(1) that by (simp add: streams_def)
  qed
  ultimately show ?thesis using assms(1) by (simp add: streams_def)
qed

lemma streams_write_line:
  assumes "streams cp w base out" "chr \<in> keys cp" "map_of (outputWriters cp) chr = Some wr"
  shows "\<exists>w1 w2. bufio_Write wr line w = (False, w1) \<and> bufio_WriteByte wr x w1 = (False, w2) \<and>
           streams cp w2 base (out(chr := out chr @ line @ [x])) \<and> nocreate w2 = nocreate w"
proof -
  from assms obtain c b where s0: "stream cp w chr c b" and o: "c @ b = out chr"
    by (auto simp: streams_def)
  from stream_Write [OF s0 assms(3), of line] obtain c1 b1
    where w1: "bufio_Write wr line w = (False, set_stream cp chr c1 b1 w)" and e1: "c1 @ b1 = c @ b @ line"
    by auto
  have s1: "stream cp (set_stream cp chr c1 b1 w) chr c1 b1"
    by (rule stream_set_same [OF s0])
  from stream_WriteByte [OF s1 assms(3), of x] obtain c2 b2
    where w2: "bufio_WriteByte wr x (set_stream cp chr c1 b1 w) =
                 (False, set_stream cp chr c2 b2 (set_stream cp chr c1 b1 w))"
      and e2: "c2 @ b2 = c1 @ b1 @ [x]"
    by auto
  have "set_stream cp chr c2 b2 (set_stream cp chr c1 b1 w) = set_stream cp chr c2 b2 w"
    by (rule set_stream_twice [OF s0])
  moreover have "streams cp (set_stream cp chr c2 b2 w) base (out(chr := c2 @ b2))"
    by (rule streams_set_stream [OF assms(1,2) s0])
  moreover have "c2 @ b2 = out chr @ line @ [x]"
    using e1 e2 o by (metis append.assoc)
  ultimately show ?thesis using w1 w2 by simp
qed

subsection \<open>The scan loop\<close>

text \<open>
  From a state with working streams the loop never fails in its body. It ends after the
  tokens \<open>scanned\<close>, with the scanner's error set exactly when a record is too long, and
  each stream has grown by the lines routed to it.
\<close>

lemma records_Nil [simp]: "records [] = []"
  by (simp add: records.simps)

lemma records_Cons:
  "data \<noteq> [] \<Longrightarrow>
     records data =
       takeWhile (\<lambda>c. c \<noteq> newline) data
         # records (drop (Suc (length (takeWhile (\<lambda>c. c \<noteq> newline) data))) data)"
  by (subst records.simps) simp

lemma scanned_unfold:
  "scanned mx data =
     (if data = [] \<or> mx \<le> length (takeWhile (\<lambda>c. c \<noteq> newline) data) then []
      else dropCR (takeWhile (\<lambda>c. c \<noteq> newline) data)
             # scanned mx (drop (Suc (length (takeWhile (\<lambda>c. c \<noteq> newline) data))) data))"
  by (cases "data = []") (simp_all add: scanned_def records_Cons)

lemma tooLong_unfold:
  "tooLong mx data \<longleftrightarrow>
     data \<noteq> [] \<and>
     (mx \<le> length (takeWhile (\<lambda>c. c \<noteq> newline) data) \<or>
      tooLong mx (drop (Suc (length (takeWhile (\<lambda>c. c \<noteq> newline) data))) data))"
  by (cases "data = []") (simp_all add: tooLong_def records_Cons)

lemma route_in_keys:
  assumes "UnknownChr \<in> keys cp" "\<forall>c. chrSet_at cp c \<longrightarrow> c \<in> keys cp"
  shows "route gj cp l \<in> keys cp"
  using assms by (auto simp: route_def outputChr_def split: prod.splits)

lemma GetOutputWriter_key:
  assumes "chr \<in> keys cp"
  shows "\<exists>wr. map_of (outputWriters cp) chr = Some wr \<and> GetOutputWriter cp chr = Some wr"
proof -
  from assms have "map_of (outputWriters cp) chr \<noteq> None"
    by (simp add: keys_def map_of_eq_None_iff)
  then show ?thesis by (auto simp: GetOutputWriter_def)
qed

lemma emit_Cons [simp]: "emit (l # ls) = l @ newline # emit ls"
  by (simp add: emit_def)

lemma emit_Nil [simp]: "emit [] = []"
  by (simp add: emit_def)

lemma scanLoop_streams:
  assumes "streams cp w base out" "UnknownChr \<in> keys cp" "\<forall>c. chrSet_at cp c \<longrightarrow> c \<in> keys cp"
    "\<not> sc_err s"
  shows "\<exists>s' w'. scanLoop gj cp n s w = (None, n + length (scanned (sc_max s) (sc_data s)), s', w') \<and>
           sc_err s' = tooLong (sc_max s) (sc_data s) \<and>
           streams cp w' base (\<lambda>c. out c @ emit (routed gj cp c (scanned (sc_max s) (sc_data s)))) \<and>
           nocreate w' = nocreate w"
  using assms(1,4)
proof (induction "length (sc_data s)" arbitrary: s w n out rule: less_induct)
  case less
  let ?seg = "takeWhile (\<lambda>c. c \<noteq> newline) (sc_data s)"
  let ?rest = "drop (Suc (length ?seg)) (sc_data s)"
  show ?case
  proof (cases "fst (Scan s)")
    case False
    then have stop: "sc_data s = [] \<or> sc_max s \<le> length ?seg"
      using less.prems(2) by (auto simp: Scan_def Let_def split: if_splits)
    then have sc: "scanned (sc_max s) (sc_data s) = []"
      by (subst scanned_unfold) auto
    have tl: "sc_err (snd (Scan s)) = tooLong (sc_max s) (sc_data s)"
      using stop less.prems(2) by (subst tooLong_unfold) (auto simp: Scan_def Let_def)
    have "scanLoop gj cp n s w = (None, n, snd (Scan s), w)"
      using False by (subst scanLoop.simps) simp
    with sc tl less.prems(1) show ?thesis
      by (simp add: routed_def)
  next
    case True
    then have go: "sc_data s \<noteq> []" "\<not> sc_max s \<le> length ?seg"
      by (auto simp: Scan_def Let_def split: if_splits)
    define s1 where "s1 = snd (Scan s)"
    define line where "line = dropCR ?seg"
    have s1: "sc_data s1 = ?rest" "Bytes s1 = line" "\<not> sc_err s1" "sc_max s1 = sc_max s"
      using go less.prems(2) by (simp_all add: s1_def line_def Scan_def Let_def Bytes_def)
    have sc: "scanned (sc_max s) (sc_data s) = line # scanned (sc_max s1) (sc_data s1)"
      using go s1 by (subst scanned_unfold) (simp add: line_def)
    have tl: "tooLong (sc_max s) (sc_data s) = tooLong (sc_max s1) (sc_data s1)"
      using go s1 by (subst tooLong_unfold) simp
    have shorter: "length (sc_data s1) < length (sc_data s)"
      using go s1 by simp
    show ?thesis
    proof (cases "line = []")
      case True
      have "scanLoop gj cp n s w = scanLoop gj cp (n + 1) s1 w"
        using \<open>fst (Scan s)\<close> True s1 by (subst scanLoop.simps) (simp add: s1_def Let_def)
      moreover from less.hyps [OF shorter less.prems(1) s1(3), of "n + 1"]
      obtain s' w' where "scanLoop gj cp (n + 1) s1 w =
            (None, n + 1 + length (scanned (sc_max s1) (sc_data s1)), s', w')"
          "sc_err s' = tooLong (sc_max s1) (sc_data s1)"
          "streams cp w' base (\<lambda>c. out c @ emit (routed gj cp c (scanned (sc_max s1) (sc_data s1))))"
          "nocreate w' = nocreate w"
        by blast
      ultimately show ?thesis
        using sc tl True by (simp add: routed_def)
    next
      case False
      define chr where "chr = route gj cp line"
      have key: "chr \<in> keys cp"
        unfolding chr_def by (rule route_in_keys [OF assms(2,3)])
      from GetOutputWriter_key [OF key] obtain wr
        where wr: "map_of (outputWriters cp) chr = Some wr" "GetOutputWriter cp chr = Some wr"
        by blast
      from streams_write_line [OF less.prems(1) key wr(1), of line newline]
      obtain w1 w2 where wl: "bufio_Write wr line w = (False, w1)"
          "bufio_WriteByte wr newline w1 = (False, w2)"
          "streams cp w2 base (out(chr := out chr @ line @ [newline]))"
          "nocreate w2 = nocreate w"
        by blast
      have "scanLoop gj cp n s w = scanLoop gj cp (n + 1) s1 w2"
        using \<open>fst (Scan s)\<close> False s1 wr(2) wl(1,2)
        by (subst scanLoop.simps)
           (simp add: s1_def [symmetric] Let_def chr_def route_def split: prod.splits)
      moreover from less.hyps [OF shorter wl(3) s1(3), of "n + 1"]
      obtain s' w' where "scanLoop gj cp (n + 1) s1 w2 =
            (None, n + 1 + length (scanned (sc_max s1) (sc_data s1)), s', w')"
          "sc_err s' = tooLong (sc_max s1) (sc_data s1)"
          "streams cp w' base (\<lambda>c. (out(chr := out chr @ line @ [newline])) c
               @ emit (routed gj cp c (scanned (sc_max s1) (sc_data s1))))"
          "nocreate w' = nocreate w2"
        by blast
      moreover have "(\<lambda>c. (out(chr := out chr @ line @ [newline])) c
               @ emit (routed gj cp c (scanned (sc_max s1) (sc_data s1))))
           = (\<lambda>c. out c @ emit (routed gj cp c (scanned (sc_max s) (sc_data s))))"
        using False by (auto simp: sc routed_def chr_def)
      ultimately show ?thesis
        using sc tl wl(4) by simp
    qed
  qed
qed

subsection \<open>Flushing and closing\<close>

text \<open>
  Go iterates a map in no fixed order. Flushing the writers leaves the same files
  whichever order is taken, and closing the files depends on the set of files alone
  (\<open>flush_any_order\<close>, \<open>close_any_order\<close>).
\<close>

lemma flush_fold:
  assumes "streams cp w base out" "set l \<subseteq> set (outputWriters cp)"
    "\<forall>chr\<in>D. stream cp w chr (out chr) []"
  shows "streams cp (foldl (\<lambda>w1 (chr, writer). snd (bufio_Flush writer w1)) w l) base out \<and>
         (\<forall>chr\<in>D \<union> fst ` set l.
            stream cp (foldl (\<lambda>w1 (chr, writer). snd (bufio_Flush writer w1)) w l) chr (out chr) []) \<and>
         nocreate (foldl (\<lambda>w1 (chr, writer). snd (bufio_Flush writer w1)) w l) = nocreate w"
  using assms
proof (induction l arbitrary: w D)
  case Nil
  then show ?case by simp
next
  case (Cons a l)
  obtain chr wr where a: "a = (chr, wr)" by (cases a)
  from Cons.prems(2) a have mem: "(chr, wr) \<in> set (outputWriters cp)" by simp
  with Cons.prems(1) have wr: "map_of (outputWriters cp) chr = Some wr"
    by (simp add: streams_def)
  from mem have key: "chr \<in> keys cp" by (force simp: keys_def)
  with Cons.prems(1) obtain c b where s0: "stream cp w chr c b" and o: "c @ b = out chr"
    by (auto simp: streams_def)
  define w1 where "w1 = set_stream cp chr (c @ b) [] w"
  have fl: "snd (bufio_Flush wr w) = w1"
    using stream_Flush [OF s0 wr] by (simp add: w1_def)
  have "streams cp w1 base (out(chr := (c @ b) @ []))"
    unfolding w1_def by (rule streams_set_stream [OF Cons.prems(1) key s0])
  then have st1: "streams cp w1 base out"
    using o by (simp add: fun_upd_idem)
  have d1: "\<forall>k\<in>insert chr D. stream cp w1 k (out k) []"
  proof
    fix k assume k: "k \<in> insert chr D"
    show "stream cp w1 k (out k) []"
    proof (cases "k = chr")
      case True
      then show ?thesis using stream_set_same [OF s0, of "c @ b" "[]"] o by (simp add: w1_def)
    next
      case False
      with k Cons.prems(3) have "stream cp w k (out k) []" by auto
      then show ?thesis unfolding w1_def by (rule stream_set_other [OF s0 _ False])
    qed
  qed
  from Cons.prems(2) have sub: "set l \<subseteq> set (outputWriters cp)" by simp
  have "nocreate w1 = nocreate w" by (simp add: w1_def)
  with Cons.IH [OF st1 sub d1] show ?case
    using fl by (simp add: a)
qed

lemma FlushAllWriters_streams:
  assumes "streams cp w base out"
  shows "streams cp (FlushAllWriters cp w) base out"
    and "\<forall>chr\<in>keys cp. stream cp (FlushAllWriters cp w) chr (out chr) []"
    and "nocreate (FlushAllWriters cp w) = nocreate w"
  using flush_fold [OF assms subset_refl, of "{}"]
  by (simp_all add: FlushAllWriters_def keys_def)

lemma close_fold:
  "foldl (\<lambda>w1 (chr, file). file_Close file w1) w l =
     w\<lparr>fds := (\<lambda>x. if x \<in> snd ` set l then None else fds w x)\<rparr>"
proof (induction l arbitrary: w)
  case Nil
  then show ?case by simp
next
  case (Cons a l)
  obtain chr fd where a: "a = (chr, fd)" by (cases a)
  have "foldl (\<lambda>w1 (chr, file). file_Close file w1) w (a # l) =
        foldl (\<lambda>w1 (chr, file). file_Close file w1) (file_Close fd w) l"
    by (simp add: a)
  also have "\<dots> = (file_Close fd w)
       \<lparr>fds := (\<lambda>x. if x \<in> snd ` set l then None else fds (file_Close fd w) x)\<rparr>"
    by (rule Cons.IH)
  also have "\<dots> = w\<lparr>fds := (\<lambda>x. if x \<in> snd ` set (a # l) then None else fds w x)\<rparr>"
  proof -
    have eq: "(\<lambda>x. if x \<in> snd ` set l then None else fds (file_Close fd w) x)
        = (\<lambda>x. if x \<in> snd ` set (a # l) then None else fds w x)"
      by (auto simp: a file_Close_def)
    show ?thesis unfolding eq by (simp add: file_Close_def)
  qed
  finally show ?case .
qed

lemma CloseAllFiles_eq:
  "CloseAllFiles cp w =
     (FlushAllWriters cp w)\<lparr>fds := (\<lambda>x. if x \<in> snd ` set (outputFiles cp) then None
                                         else fds (FlushAllWriters cp w) x)\<rparr>"
  by (simp add: CloseAllFiles_def close_fold)

lemma flush_any_order:
  assumes "streams cp w base out" "set l = set (outputWriters cp)"
  shows "fs (foldl (\<lambda>w1 (chr, writer). snd (bufio_Flush writer w1)) w l) = fs (FlushAllWriters cp w)"
proof
  fix q
  let ?w1 = "foldl (\<lambda>w1 (chr, writer). snd (bufio_Flush writer w1)) w l"
  let ?w2 = "FlushAllWriters cp w"
  from assms(2) have sub: "set l \<subseteq> set (outputWriters cp)" by simp
  from flush_fold [OF assms(1) sub, of "{}"] assms(2)
  have s1: "streams cp ?w1 base out" and f1: "\<forall>chr\<in>keys cp. stream cp ?w1 chr (out chr) []"
    by (simp_all add: keys_def)
  note s2 = FlushAllWriters_streams(1,2) [OF assms(1)]
  show "fs ?w1 q = fs ?w2 q"
  proof (cases "q \<in> filename cp ` keys cp")
    case True
    then obtain k where k: "k \<in> keys cp" "q = filename cp k" by auto
    with f1 s2(2) have "fs ?w1 q = Some (out k)" "fs ?w2 q = Some (out k)"
      by (auto simp: stream_def)
    then show ?thesis by simp
  next
    case False
    with s1 s2(1) show ?thesis by (simp add: streams_def)
  qed
qed

lemma close_any_order:
  assumes "set l = set (outputFiles cp)"
  shows "foldl (\<lambda>w1 (chr, file). file_Close file w1) w l
       = foldl (\<lambda>w1 (chr, file). file_Close file w1) w (outputFiles cp)"
  by (simp add: close_fold assms)

lemma CloseAllFiles_final:
  assumes "streams cp w base out"
  shows "\<forall>k\<in>keys cp. fs (CloseAllFiles cp w) (filename cp k) = Some (out k)"
    and "\<forall>q. q \<notin> filename cp ` keys cp \<longrightarrow> fs (CloseAllFiles cp w) q = base q"
    and "settled cp (CloseAllFiles cp w)"
    and "nocreate (CloseAllFiles cp w) = nocreate w"
proof -
  note fl = FlushAllWriters_streams [OF assms]
  show "\<forall>k\<in>keys cp. fs (CloseAllFiles cp w) (filename cp k) = Some (out k)"
    using fl(2) by (auto simp: CloseAllFiles_eq stream_def)
  show "\<forall>q. q \<notin> filename cp ` keys cp \<longrightarrow> fs (CloseAllFiles cp w) q = base q"
    using fl(1) by (simp add: CloseAllFiles_eq streams_def)
  show "nocreate (CloseAllFiles cp w) = nocreate w"
    using fl(3) by (simp add: CloseAllFiles_eq)
  have "\<exists>b. wrs (FlushAllWriters cp w) wr = Some b \<and> bw_buf b = [] \<and> \<not> bw_err b"
    if "(chr, wr) \<in> set (outputWriters cp)" for chr wr
  proof -
    from that fl(1) have m: "map_of (outputWriters cp) chr = Some wr"
      by (simp add: streams_def)
    from that have "chr \<in> keys cp" by (force simp: keys_def)
    with fl(2) have "stream cp (FlushAllWriters cp w) chr (out chr) []" by simp
    with m show ?thesis by (auto simp: stream_def)
  qed
  then show "settled cp (CloseAllFiles cp w)"
    by (force simp: settled_def CloseAllFiles_eq)
qed

subsection \<open>Initialization\<close>

lemma cfg_eq:
  assumes "cfg cp' = cfg cp"
  shows "filename cp' = filename cp" "chrSet_at cp' = chrSet_at cp" "route gj cp' = route gj cp"
    "routed gj cp' = routed gj cp" "inputFile cp' = inputFile cp" "chrNames cp' = chrNames cp"
  using assms
  by (auto simp: cfg_def filename_def chrSet_at_def route_def routed_def
        ExtractChromosome_def outputChr_def fun_eq_iff)

lemma create_step:
  fixes chr :: string and sz :: nat
  assumes "streams cp w base (\<lambda>_. [])"
  defines "cp' \<equiv> cp\<lparr>outputFiles := AList.update chr (nextfd w) (outputFiles cp),
                     outputWriters := AList.update chr (nextwr w) (outputWriters cp)\<rparr>"
  defines "w' \<equiv> w\<lparr>fs := (fs w)(filename cp chr \<mapsto> []),
                   fds := (fds w)(nextfd w \<mapsto> \<lparr>fd_path = filename cp chr, fd_off = 0\<rparr>),
                   nextfd := Suc (nextfd w),
                   wrs := (wrs w)(nextwr w \<mapsto> \<lparr>bw_fd = nextfd w, bw_size = sz, bw_buf = [], bw_err = False\<rparr>),
                   nextwr := Suc (nextwr w)\<rparr>"
  shows "streams cp' w' base (\<lambda>_. [])" and "keys cp' = insert chr (keys cp)" and "cfg cp' = cfg cp"
proof -
  show k: "keys cp' = insert chr (keys cp)"
    by (simp add: keys_def cp'_def dom_update)
  show c: "cfg cp' = cfg cp"
    by (simp add: cfg_def cp'_def)
  have fn: "filename cp' = filename cp"
    by (rule cfg_eq [OF c])
  have d: "distinct (map fst (outputWriters cp'))" "distinct (map fst (outputFiles cp'))"
    using assms(1) by (simp_all add: streams_def cp'_def distinct_update)
  have kf: "fst ` set (outputFiles cp') = keys cp'"
    using assms(1) by (simp add: k) (simp add: streams_def cp'_def dom_update)
  have st: "stream cp' w' k [] []" if "k \<in> keys cp'" for k
  proof (cases "k = chr")
    case True
    then show ?thesis
      by (simp add: stream_def fn) (simp add: cp'_def w'_def update_conv')
  next
    case False
    with that k have "k \<in> keys cp" by simp
    with assms(1) obtain c b where "stream cp w k c b" "c @ b = []"
      by (auto simp: streams_def)
    then have "stream cp w k [] []" by simp
    then obtain wr fd z where h: "map_of (outputWriters cp) k = Some wr"
        "map_of (outputFiles cp) k = Some fd" "wr < nextwr w" "fd < nextfd w"
        "wrs w wr = Some \<lparr>bw_fd = fd, bw_size = z, bw_buf = [], bw_err = False\<rparr>"
        "fds w fd = Some \<lparr>fd_path = filename cp k, fd_off = 0\<rparr>"
        "fs w (filename cp k) = Some []"
      by (auto simp: stream_def)
    show ?thesis
      unfolding stream_def fn
      by (intro exI [of _ wr] exI [of _ fd] exI [of _ z])
         (use h False in \<open>simp add: cp'_def w'_def update_conv'\<close>)
  qed
  have fr: "fs w' q = base q" if "q \<notin> filename cp' ` keys cp'" for q
  proof -
    from that have "q \<noteq> filename cp chr" "q \<notin> filename cp ` keys cp"
      by (auto simp: fn k)
    then show ?thesis using assms(1) by (simp add: w'_def streams_def)
  qed
  show "streams cp' w' base (\<lambda>_. [])"
    unfolding streams_def using d kf st fr by auto
qed

lemma createAll_Cons_ok:
  assumes "\<not> nocreate w (filename cp chr)"
  shows "createAll (chr # rest) cp w =
     createAll rest
       (cp\<lparr>outputFiles := AList.update chr (nextfd w) (outputFiles cp),
           outputWriters := AList.update chr (nextwr w) (outputWriters cp)\<rparr>)
       (w\<lparr>fs := (fs w)(filename cp chr \<mapsto> []),
          fds := (fds w)(nextfd w \<mapsto> \<lparr>fd_path = filename cp chr, fd_off = 0\<rparr>),
          nextfd := Suc (nextfd w),
          wrs := (wrs w)(nextwr w \<mapsto> \<lparr>bw_fd = nextfd w, bw_size = 4 * 1024 * 1024, bw_buf = [], bw_err = False\<rparr>),
          nextwr := Suc (nextwr w)\<rparr>)"
  using assms by (simp add: os_Create_def bufio_NewWriterSize_def)

lemma createAll_ok:
  assumes "streams cp w base (\<lambda>_. [])" "\<forall>c\<in>set cs. \<not> nocreate w (filename cp c)"
  shows "\<exists>cp' w'. createAll cs cp w = (None, cp', w') \<and> streams cp' w' base (\<lambda>_. []) \<and>
           keys cp' = keys cp \<union> set cs \<and> cfg cp' = cfg cp \<and> nocreate w' = nocreate w"
  using assms
proof (induction cs arbitrary: cp w)
  case Nil
  then show ?case by simp
next
  case (Cons chr rest)
  define cp1 where "cp1 = cp\<lparr>outputFiles := AList.update chr (nextfd w) (outputFiles cp),
                     outputWriters := AList.update chr (nextwr w) (outputWriters cp)\<rparr>"
  define w1 where "w1 = w\<lparr>fs := (fs w)(filename cp chr \<mapsto> []),
          fds := (fds w)(nextfd w \<mapsto> \<lparr>fd_path = filename cp chr, fd_off = 0\<rparr>),
          nextfd := Suc (nextfd w),
          wrs := (wrs w)(nextwr w \<mapsto> \<lparr>bw_fd = nextfd w, bw_size = 4 * 1024 * 1024, bw_buf = [], bw_err = False\<rparr>),
          nextwr := Suc (nextwr w)\<rparr>"
  from Cons.prems(2) have ok: "\<not> nocreate w (filename cp chr)" by simp
  have step: "createAll (chr # rest) cp w = createAll rest cp1 w1"
    unfolding cp1_def w1_def by (rule createAll_Cons_ok [OF ok])
  have s1: "streams cp1 w1 base (\<lambda>_. [])" and k1: "keys cp1 = insert chr (keys cp)"
    and c1: "cfg cp1 = cfg cp"
    unfolding cp1_def w1_def by (rule create_step [OF Cons.prems(1)])+
  have n1: "nocreate w1 = nocreate w" by (simp add: w1_def)
  from Cons.prems(2) have "\<forall>c\<in>set rest. \<not> nocreate w1 (filename cp1 c)"
    by (simp add: n1 cfg_eq(1) [OF c1])
  from Cons.IH [OF s1 this] obtain cp' w'
    where "createAll rest cp1 w1 = (None, cp', w')" "streams cp' w' base (\<lambda>_. [])"
      "keys cp' = keys cp1 \<union> set rest" "cfg cp' = cfg cp1" "nocreate w' = nocreate w1"
    by blast
  then show ?case
    using step k1 c1 n1 by auto
qed

lemma createAll_append:
  "createAll (xs @ ys) cp w =
     (case createAll xs cp w of
        (None, cp', w') \<Rightarrow> createAll ys cp' w'
      | (Some e, cp', w') \<Rightarrow> (Some e, cp', w'))"
  by (induction xs arbitrary: cp w) (auto split: prod.splits option.splits)

lemma streams_fresh:
  assumes "outputWriters cp = []" "outputFiles cp = []"
  shows "streams cp w (fs w) out" "keys cp = {}"
  using assms by (simp_all add: streams_def keys_def)

lemma InitializeOutputFiles_ok:
  assumes "outputWriters cp = []" "outputFiles cp = []"
    "\<forall>c\<in>set (chrNames cp @ [UnknownChr]). \<not> nocreate w (filename cp c)"
  shows "\<exists>cp' w'. InitializeOutputFiles cp w = (None, cp', w') \<and> streams cp' w' (fs w) (\<lambda>_. []) \<and>
           keys cp' = set (chrNames cp) \<union> {UnknownChr} \<and> cfg cp' = cfg cp \<and> nocreate w' = nocreate w"
  using createAll_ok [OF streams_fresh(1) [OF assms(1,2)] assms(3)] streams_fresh(2) [OF assms(1,2)]
  by (simp add: InitializeOutputFiles_def)

lemma InitializeOutputFiles_fail:
  assumes "outputWriters cp = []" "outputFiles cp = []"
    "chrNames cp @ [UnknownChr] = pre @ c # rest"
    "\<forall>x\<in>set pre. \<not> nocreate w (filename cp x)" "nocreate w (filename cp c)"
  shows "\<exists>cp' w'. InitializeOutputFiles cp w = (Some (CreateFailed (filename cp c)), cp', w') \<and>
           (\<forall>k\<in>set pre. fs w' (filename cp k) = Some []) \<and>
           (\<forall>q. q \<notin> filename cp ` set pre \<longrightarrow> fs w' q = fs w q) \<and>
           settled cp' w' \<and> keys cp' = set pre \<and> cfg cp' = cfg cp \<and> nocreate w' = nocreate w"
proof -
  from createAll_ok [OF streams_fresh(1) [OF assms(1,2)] assms(4)] streams_fresh(2) [OF assms(1,2)]
  obtain cp1 w1 where pre: "createAll pre cp w = (None, cp1, w1)"
      and st: "streams cp1 w1 (fs w) (\<lambda>_. [])"
      and k: "keys cp1 = set pre" and c: "cfg cp1 = cfg cp" and n: "nocreate w1 = nocreate w"
    by auto
  have fn: "filename cp1 = filename cp" by (rule cfg_eq [OF c])
  have "createAll (c # rest) cp1 w1 = (Some (CreateFailed (filename cp c)), cp1, CloseAllFiles cp1 w1)"
    using assms(5) by (simp add: os_Create_def n fn)
  then have "InitializeOutputFiles cp w =
        (Some (CreateFailed (filename cp c)), cp1, CloseAllFiles cp1 w1)"
    using pre by (simp add: InitializeOutputFiles_def assms(3) createAll_append)
  then show ?thesis
    using CloseAllFiles_final [OF st] k c n by (simp add: fn)
qed

lemma Init_success_creatable:
  assumes "outputWriters cp = []" "outputFiles cp = []"
    "fst (InitializeOutputFiles cp w) = None"
  shows "\<forall>c\<in>set (chrNames cp @ [UnknownChr]). \<not> nocreate w (filename cp c)"
proof (rule ccontr)
  assume "\<not> (\<forall>c\<in>set (chrNames cp @ [UnknownChr]). \<not> nocreate w (filename cp c))"
  then have "\<exists>x\<in>set (chrNames cp @ [UnknownChr]). nocreate w (filename cp x)"
    by blast
  from split_list_first_prop [OF this] obtain ys x zs
    where "chrNames cp @ [UnknownChr] = ys @ x # zs" "nocreate w (filename cp x)"
      "\<forall>y\<in>set ys. \<not> nocreate w (filename cp y)"
    by blast
  from InitializeOutputFiles_fail [OF assms(1,2) this(1,3,2)] assms(3)
  show False by auto
qed

subsection \<open>The run\<close>

lemma streams_file_bound:
  assumes "streams cp w base out" "(chr, fd) \<in> set (outputFiles cp)"
  shows "fd < nextfd w"
proof -
  from assms have m: "map_of (outputFiles cp) chr = Some fd"
    by (simp add: streams_def)
  from assms have "chr \<in> keys cp" by (force simp: streams_def)
  with assms(1) obtain c b where "stream cp w chr c b" by (auto simp: streams_def)
  with m show ?thesis by (auto simp: stream_def)
qed

lemma streams_fds_irrelevant:
  assumes "streams cp w base out" "\<forall>x\<in>snd ` set (outputFiles cp). f x = fds w x" "nextfd w \<le> n"
  shows "streams cp (w\<lparr>fds := f, nextfd := n\<rparr>) base out"
proof -
  have "\<exists>c b. stream cp (w\<lparr>fds := f, nextfd := n\<rparr>) k c b \<and> c @ b = out k" if "k \<in> keys cp" for k
  proof -
    from assms(1) that obtain c b where st: "stream cp w k c b" and o: "c @ b = out k"
      by (auto simp: streams_def)
    then obtain wr fd z where h: "map_of (outputWriters cp) k = Some wr"
        "map_of (outputFiles cp) k = Some fd" "wr < nextwr w" "fd < nextfd w"
        "wrs w wr = Some \<lparr>bw_fd = fd, bw_size = z, bw_buf = b, bw_err = False\<rparr>"
        "fds w fd = Some \<lparr>fd_path = filename cp k, fd_off = length c\<rparr>"
        "fs w (filename cp k) = Some c"
      by (auto simp: stream_def)
    from h(2) have "(k, fd) \<in> set (outputFiles cp)" by (rule map_of_SomeD)
    then have "fd \<in> snd ` set (outputFiles cp)" by force
    with assms(2) have "f fd = fds w fd" by blast
    then have "stream cp (w\<lparr>fds := f, nextfd := n\<rparr>) k c b"
      unfolding stream_def
      by (intro exI [of _ wr] exI [of _ fd] exI [of _ z]) (use h assms(3) in simp)
    with o show ?thesis by blast
  qed
  then show ?thesis using assms(1) by (simp add: streams_def)
qed

lemma streams_fds_only:
  assumes "streams cp w base out" "\<forall>x\<in>snd ` set (outputFiles cp). f x = fds w x"
  shows "streams cp (w\<lparr>fds := f\<rparr>) base out"
  using streams_fds_irrelevant [OF assms, of "nextfd w"] by simp

lemma ProcessFile_run:
  assumes "outputWriters cp = []" "outputFiles cp = []"
    "\<forall>c. chrSet_at cp c \<longrightarrow> c \<in> set (chrNames cp)"
    "\<forall>c\<in>set (chrNames cp @ [UnknownChr]). \<not> nocreate w (filename cp c)"
  shows "\<exists>cp' w'. ProcessFile gj cp w = (run_result cp w, cp', w') \<and>
      (\<forall>k\<in>set (chrNames cp @ [UnknownChr]).
          fs w' (filename cp k) = Some (emit (routed gj cp k (lines_read cp w)))) \<and>
      (\<forall>q. q \<notin> filename cp ` set (chrNames cp @ [UnknownChr]) \<longrightarrow> fs w' q = fs w q) \<and>
      settled cp' w' \<and> keys cp' = set (chrNames cp @ [UnknownChr]) \<and> cfg cp' = cfg cp \<and>
      nocreate w' = nocreate w"
proof -
  let ?mx = "10 * 1024 * 1024 :: nat"
  from InitializeOutputFiles_ok [OF assms(1,2,4)]
  obtain cp1 w1 where init: "InitializeOutputFiles cp w = (None, cp1, w1)"
      and st1: "streams cp1 w1 (fs w) (\<lambda>_. [])"
      and k: "keys cp1 = set (chrNames cp @ [UnknownChr])"
      and c: "cfg cp1 = cfg cp" and n1: "nocreate w1 = nocreate w"
    by auto
  note ce = cfg_eq [OF c]
  have inp: "fs w1 (inputFile cp1) = read_input cp w"
  proof (cases "inputFile cp \<in> filename cp ` set (chrNames cp @ [UnknownChr])")
    case True
    then obtain x where x: "x \<in> keys cp1" "inputFile cp = filename cp x"
      using k by auto
    with st1 obtain c0 b0 where "stream cp1 w1 x c0 b0" "c0 @ b0 = []"
      by (auto simp: streams_def)
    then have "fs w1 (filename cp x) = Some []"
      by (auto simp: stream_def ce)
    with True x show ?thesis by (simp add: read_input_def ce)
  next
    case False
    then have "inputFile cp1 \<notin> filename cp1 ` keys cp1" by (simp add: ce k)
    with st1 have "fs w1 (inputFile cp1) = fs w (inputFile cp1)" by (simp add: streams_def)
    with False show ?thesis by (simp add: read_input_def ce)
  qed
  have goal: "\<exists>cp' w'. ProcessFile gj cp w = (run_result cp w, cp', w') \<and>
      (\<forall>k\<in>keys cp1. fs w' (filename cp1 k) = Some (emit (routed gj cp1 k (lines_read cp w)))) \<and>
      (\<forall>q. q \<notin> filename cp1 ` keys cp1 \<longrightarrow> fs w' q = fs w q) \<and>
      settled cp' w' \<and> keys cp' = keys cp1 \<and> cfg cp' = cfg cp \<and> nocreate w' = nocreate w"
  proof (cases "read_input cp w")
    case None
    then have "ProcessFile gj cp w = (Some OpenFailed, cp1, CloseAllFiles cp1 w1)"
      using init inp by (simp add: ProcessFile_def os_Open_def)
    moreover have "run_result cp w = Some OpenFailed" "lines_read cp w = []"
      using None by (simp_all add: run_result_def lines_read_def)
    ultimately show ?thesis
      using CloseAllFiles_final [OF st1] c n1 by (simp add: routed_def)
  next
    case (Some d)
    define infile where "infile = nextfd w1"
    define w2 where "w2 = w1\<lparr>fds := (fds w1)(infile \<mapsto> \<lparr>fd_path = inputFile cp1, fd_off = 0\<rparr>),
                           nextfd := Suc infile\<rparr>"
    have op: "os_Open (inputFile cp1) w1 = (Some infile, w2)"
      using Some inp by (simp add: os_Open_def w2_def infile_def)
    have notin: "\<forall>x\<in>snd ` set (outputFiles cp1). x \<noteq> infile"
      using streams_file_bound [OF st1] by (force simp: infile_def)
    then have keep: "\<forall>x\<in>snd ` set (outputFiles cp1). (f(infile := y)) x = f x" for f :: "nat \<rightharpoonup> fdesc" and y
      by simp
    have st2: "streams cp1 w2 (fs w) (\<lambda>_. [])"
      unfolding w2_def
      by (rule streams_fds_irrelevant [OF st1 keep]) (simp add: infile_def)
    define sc where "sc = Buffer (bufio_NewScanner infile w2) ?mx"
    have sc': "Buffer (bufio_NewScanner infile w2) 10485760 = sc"
      by (simp add: sc_def)
    have sc: "sc_data sc = d" "sc_max sc = ?mx" "\<not> sc_err sc"
      using Some inp by (simp_all add: sc_def Buffer_def bufio_NewScanner_def w2_def)
    have unk: "UnknownChr \<in> keys cp1" by (simp add: k)
    have mem: "\<forall>x. chrSet_at cp1 x \<longrightarrow> x \<in> keys cp1"
      using assms(3) by (simp add: ce k)
    from scanLoop_streams [OF st2 unk mem sc(3), of gj 0]
    obtain s' w3 where loop: "scanLoop gj cp1 0 sc w2 = (None, length (scanned ?mx d), s', w3)"
        and err: "sc_err s' = tooLong ?mx d"
        and st3: "streams cp1 w3 (fs w) (\<lambda>x. emit (routed gj cp1 x (scanned ?mx d)))"
        and n3: "nocreate w3 = nocreate w2"
      unfolding sc by auto
    have n2: "nocreate w2 = nocreate w" by (simp add: w2_def n1)
    have lr: "lines_read cp w = scanned ?mx d"
      using Some by (simp add: lines_read_def)
    show ?thesis
    proof (cases "tooLong ?mx d")
      case True
      define w4 where "w4 = file_Close infile w3"
      have st4: "streams cp1 w4 (fs w) (\<lambda>x. emit (routed gj cp1 x (scanned ?mx d)))"
        unfolding w4_def file_Close_def
        by (rule streams_fds_only [OF st3 keep])
      have "ProcessFile gj cp w = (Some (ReadFailed (length (scanned ?mx d))), cp1, CloseAllFiles cp1 w4)"
        using init op loop err True
        by (simp add: ProcessFile_def sc' w4_def)
      moreover have "run_result cp w = Some (ReadFailed (length (scanned ?mx d)))"
        using Some True by (simp add: run_result_def)
      moreover have "nocreate w4 = nocreate w"
        by (simp add: w4_def file_Close_def n3 n2)
      ultimately show ?thesis
        using CloseAllFiles_final [OF st4] c lr by simp
    next
      case False
      define w4 where "w4 = file_Close infile (FlushAllWriters cp1 w3)"
      note fl = FlushAllWriters_streams [OF st3]
      have st4: "streams cp1 w4 (fs w) (\<lambda>x. emit (routed gj cp1 x (scanned ?mx d)))"
        unfolding w4_def file_Close_def
        by (rule streams_fds_only [OF fl(1) keep])
      have "ProcessFile gj cp w = (None, cp1, CloseAllFiles cp1 w4)"
        using init op loop err False
        by (simp add: ProcessFile_def sc' w4_def)
      moreover have "run_result cp w = None"
        using Some False by (simp add: run_result_def)
      moreover have "nocreate w4 = nocreate w"
        by (simp add: w4_def file_Close_def fl(3) n3 n2)
      ultimately show ?thesis
        using CloseAllFiles_final [OF st4] c lr by simp
    qed
  qed
  then show ?thesis by (simp add: ce k)
qed

section \<open>A processor as the constructor makes it\<close>

lemma chrSet_fold:
  "foldl (\<lambda>m chr. m(chr \<mapsto> True)) m0 names c = (if c \<in> set names then Some True else m0 c)"
  by (induction names arbitrary: m0) auto

lemma chrSet_at_New [simp]:
  "chrSet_at (NewChromosomeProcessor inp pre fld names) c \<longleftrightarrow> c \<in> set names"
  by (simp add: chrSet_at_def NewChromosomeProcessor_def chrSet_fold)

lemma New_fields [simp]:
  "inputFile (NewChromosomeProcessor inp pre fld names) = inp"
  "prefix (NewChromosomeProcessor inp pre fld names) = pre"
  "chrFieldName (NewChromosomeProcessor inp pre fld names) = fld"
  "chrNames (NewChromosomeProcessor inp pre fld names) = names"
  "outputWriters (NewChromosomeProcessor inp pre fld names) = []"
  "outputFiles (NewChromosomeProcessor inp pre fld names) = []"
  by (simp_all add: NewChromosomeProcessor_def)

lemma ExtractChromosome_forwards:
  "ExtractChromosome gj cp line = (case gj line (chrFieldName cp) of None \<Rightarrow> ([], False) | Some s \<Rightarrow> (s, True))"
  "snd (ExtractChromosome gj cp line) \<longleftrightarrow> gj line (chrFieldName cp) \<noteq> None"
  "chrFieldName cp' = chrFieldName cp \<Longrightarrow> ExtractChromosome gj cp' line = ExtractChromosome gj cp line"
  by (simp_all add: ExtractChromosome_def split: option.splits)

section \<open>The whole run in closed form\<close>

lemma map_of_filename:
  "map_of (map (\<lambda>k. (filename cp k, h k)) ks) q =
     (if q \<in> filename cp ` set ks then Some (h (the_inv (filename cp) q)) else None)"
proof (induction ks)
  case Nil
  then show ?case by simp
next
  case (Cons k ks)
  have inj: "inj (filename cp)" by (simp add: inj_def)
  show ?case
    using Cons by (auto simp: the_inv_f_f [OF inj])
qed

lemma map_of_filename_key:
  "map_of (map (\<lambda>k. (filename cp k, h k)) ks) (filename cp k) =
     (if k \<in> set ks then Some (h k) else None)"
  by (induction ks) auto

lemma map_of_filename_other:
  "q \<notin> filename cp ` set ks \<Longrightarrow> map_of (map (\<lambda>k. (filename cp k, h k)) ks) q = None"
  by (induction ks) auto

lemma fs_eq_add:
  assumes "\<forall>k\<in>set ks. f (filename cp k) = Some (h k)"
    "\<forall>q. q \<notin> filename cp ` set ks \<longrightarrow> f q = g q"
  shows "f = g ++ map_of (map (\<lambda>k. (filename cp k, h k)) ks)"
proof
  fix q
  show "f q = (g ++ map_of (map (\<lambda>k. (filename cp k, h k)) ks)) q"
  proof (cases "q \<in> filename cp ` set ks")
    case True
    then obtain k where "k \<in> set ks" "q = filename cp k" by auto
    with assms(1) show ?thesis by (simp add: map_add_def map_of_filename_key)
  next
    case False
    with assms(2) show ?thesis by (simp add: map_add_def map_of_filename_other)
  qed
qed

lemma ProcessFile_create_fail:
  assumes "outputWriters cp = []" "outputFiles cp = []"
    "chrNames cp @ [UnknownChr] = pre @ c # rest"
    "\<forall>x\<in>set pre. \<not> nocreate w (filename cp x)" "nocreate w (filename cp c)"
  shows "\<exists>cp' w'. ProcessFile gj cp w = (Some (CreateFailed (filename cp c)), cp', w') \<and>
           (\<forall>k\<in>set pre. fs w' (filename cp k) = Some []) \<and>
           (\<forall>q. q \<notin> filename cp ` set pre \<longrightarrow> fs w' q = fs w q) \<and>
           settled cp' w' \<and> keys cp' = set pre \<and> cfg cp' = cfg cp \<and> nocreate w' = nocreate w"
  using InitializeOutputFiles_fail [OF assms] by (auto simp: ProcessFile_def)

lemma ProcessFile_total:
  assumes "outputWriters cp = []" "outputFiles cp = []"
    "\<forall>c. chrSet_at cp c \<longrightarrow> c \<in> set (chrNames cp)"
  shows "\<exists>cp' w'. ProcessFile gj cp w = (final_result cp w, cp', w') \<and> fs w' = final_fs gj cp w \<and>
           nocreate w' = nocreate w \<and> settled cp' w' \<and> cfg cp' = cfg cp"
proof (cases "dropWhile (creatable cp w) (allChrs cp)")
  case Nil
  then have all: "\<forall>c\<in>set (chrNames cp @ [UnknownChr]). \<not> nocreate w (filename cp c)"
    by (simp add: dropWhile_eq_Nil_conv allChrs_def creatable_def)
  from ProcessFile_run [OF assms all, of gj] obtain cp' w'
    where r: "ProcessFile gj cp w = (run_result cp w, cp', w')"
      and k: "\<forall>k\<in>set (chrNames cp @ [UnknownChr]).
          fs w' (filename cp k) = Some (emit (routed gj cp k (lines_read cp w)))"
      and o: "\<forall>q. q \<notin> filename cp ` set (chrNames cp @ [UnknownChr]) \<longrightarrow> fs w' q = fs w q"
      and rest: "settled cp' w'" "cfg cp' = cfg cp" "nocreate w' = nocreate w"
    by blast
  have "final_fs gj cp w =
      fs w ++ map_of (map (\<lambda>k. (filename cp k, emit (routed gj cp k (lines_read cp w)))) (allChrs cp))"
    unfolding final_fs_def Nil by simp
  then have "fs w' = final_fs gj cp w"
    using fs_eq_add [OF k o] by (simp add: allChrs_def)
  moreover have "final_result cp w = run_result cp w"
    unfolding final_result_def Nil by simp
  ultimately show ?thesis using r rest by simp
next
  case (Cons c rest)
  define pre where "pre = takeWhile (creatable cp w) (allChrs cp)"
  have split: "chrNames cp @ [UnknownChr] = pre @ c # rest"
    using Cons takeWhile_dropWhile_id [of "creatable cp w" "allChrs cp"]
    by (simp add: pre_def allChrs_def)
  have ok: "\<forall>x\<in>set pre. \<not> nocreate w (filename cp x)"
    using set_takeWhileD [of _ "creatable cp w" "allChrs cp"] by (auto simp: pre_def creatable_def)
  have bad: "nocreate w (filename cp c)"
    using Cons hd_dropWhile [of "creatable cp w" "allChrs cp"] by (simp add: creatable_def)
  from ProcessFile_create_fail [OF assms(1,2) split ok bad, of gj] obtain cp' w'
    where r: "ProcessFile gj cp w = (Some (CreateFailed (filename cp c)), cp', w')"
      and k: "\<forall>k\<in>set pre. fs w' (filename cp k) = Some []"
      and o: "\<forall>q. q \<notin> filename cp ` set pre \<longrightarrow> fs w' q = fs w q"
      and rest: "settled cp' w'" "cfg cp' = cfg cp" "nocreate w' = nocreate w"
    by blast
  have "final_fs gj cp w = fs w ++ map_of (map (\<lambda>k. (filename cp k, [])) pre)"
    unfolding final_fs_def Cons pre_def by simp
  then have "fs w' = final_fs gj cp w"
    using fs_eq_add [OF k o] by simp
  moreover have "final_result cp w = Some (CreateFailed (filename cp c))"
    unfolding final_result_def Cons by simp
  ultimately show ?thesis using r rest by simp
qed

lemma New_total:
  "\<exists>cp' w'. ProcessFile gj (NewChromosomeProcessor inp pre fld names) w =
       (final_result (NewChromosomeProcessor inp pre fld names) w, cp', w') \<and>
     fs w' = final_fs gj (NewChromosomeProcessor inp pre fld names) w \<and>
     nocreate w' = nocreate w \<and> settled cp' w' \<and>
     cfg cp' = cfg (NewChromosomeProcessor inp pre fld names)"
  by (rule ProcessFile_total) simp_all

lemma final_result_alt:
  "final_result cp w =
     (if dropWhile (creatable cp w) (allChrs cp) = [] then run_result cp w
      else Some (CreateFailed (filename cp (hd (dropWhile (creatable cp w) (allChrs cp))))))"
  by (simp add: final_result_def split: list.split del: dropWhile_eq_Nil_conv)

lemma final_fs_alt:
  "final_fs gj cp w =
     (if dropWhile (creatable cp w) (allChrs cp) = []
      then fs w ++ map_of (map (\<lambda>k. (filename cp k, emit (routed gj cp k (lines_read cp w)))) (allChrs cp))
      else fs w ++ map_of (map (\<lambda>k. (filename cp k, [])) (takeWhile (creatable cp w) (allChrs cp))))"
  by (simp add: final_fs_def split: list.split del: dropWhile_eq_Nil_conv)

lemma route_New_in:
  "route gj (NewChromosomeProcessor inp pre fld names) l \<in> set (names @ [UnknownChr])"
  by (auto simp: route_def outputChr_def split: prod.splits)


lemma New_outputs:
  assumes "\<forall>c\<in>set (names @ [UnknownChr]).
           \<not> nocreate w (filename (NewChromosomeProcessor inp pre fld names) c)"
  shows "fst (ProcessFile gj (NewChromosomeProcessor inp pre fld names) w)
           = run_result (NewChromosomeProcessor inp pre fld names) w"
    and "\<forall>k\<in>set (names @ [UnknownChr]).
           fs (snd (snd (ProcessFile gj (NewChromosomeProcessor inp pre fld names) w)))
              (filename (NewChromosomeProcessor inp pre fld names) k)
           = Some (emit (routed gj (NewChromosomeProcessor inp pre fld names) k
                     (lines_read (NewChromosomeProcessor inp pre fld names) w)))"
    and "\<forall>q. q \<notin> filename (NewChromosomeProcessor inp pre fld names) ` set (names @ [UnknownChr]) \<longrightarrow>
           fs (snd (snd (ProcessFile gj (NewChromosomeProcessor inp pre fld names) w))) q = fs w q"
    and "settled (fst (snd (ProcessFile gj (NewChromosomeProcessor inp pre fld names) w)))
           (snd (snd (ProcessFile gj (NewChromosomeProcessor inp pre fld names) w)))"
proof -
  let ?cp = "NewChromosomeProcessor inp pre fld names"
  have "\<exists>cp' w'. ProcessFile gj ?cp w = (run_result ?cp w, cp', w') \<and>
      (\<forall>k\<in>set (chrNames ?cp @ [UnknownChr]).
          fs w' (filename ?cp k) = Some (emit (routed gj ?cp k (lines_read ?cp w)))) \<and>
      (\<forall>q. q \<notin> filename ?cp ` set (chrNames ?cp @ [UnknownChr]) \<longrightarrow> fs w' q = fs w q) \<and>
      settled cp' w' \<and> keys cp' = set (chrNames ?cp @ [UnknownChr]) \<and> cfg cp' = cfg ?cp \<and>
      nocreate w' = nocreate w"
    by (rule ProcessFile_run) (use assms in simp_all)
  then obtain cp' w' where r: "ProcessFile gj ?cp w = (run_result ?cp w, cp', w')"
    and k: "\<forall>k\<in>set (names @ [UnknownChr]).
          fs w' (filename ?cp k) = Some (emit (routed gj ?cp k (lines_read ?cp w)))"
    and o: "\<forall>q. q \<notin> filename ?cp ` set (names @ [UnknownChr]) \<longrightarrow> fs w' q = fs w q"
    and s: "settled cp' w'"
    by auto
  from r show "fst (ProcessFile gj ?cp w) = run_result ?cp w" by simp
  from r k show "\<forall>k\<in>set (names @ [UnknownChr]).
           fs (snd (snd (ProcessFile gj ?cp w))) (filename ?cp k)
           = Some (emit (routed gj ?cp k (lines_read ?cp w)))" by simp
  from r o show "\<forall>q. q \<notin> filename ?cp ` set (names @ [UnknownChr]) \<longrightarrow>
           fs (snd (snd (ProcessFile gj ?cp w))) q = fs w q" by simp
  from r s show "settled (fst (snd (ProcessFile gj ?cp w))) (snd (snd (ProcessFile gj ?cp w)))"
    by simp
qed

subsection \<open>Running again\<close>

lemma creatable_cong:
  "nocreate w1 = nocreate w \<Longrightarrow> creatable cp w1 = creatable cp w"
  by (simp add: creatable_def fun_eq_iff)

lemma map_add_twice: "m ++ n ++ n = m ++ n"
  by (rule ext) (simp add: map_add_def split: option.split)

lemma rerun:
  assumes "fs w1 = final_fs gj cp w" "nocreate w1 = nocreate w"
  shows "final_result cp w1 = final_result cp w" "final_fs gj cp w1 = final_fs gj cp w"
proof -
  note cr = creatable_cong [OF assms(2), of cp]
  have both: "final_result cp w1 = final_result cp w \<and> final_fs gj cp w1 = final_fs gj cp w"
  proof (cases "dropWhile (creatable cp w) (allChrs cp)")
    case Nil
    let ?M = "\<lambda>v. map_of (map (\<lambda>k. (filename cp k, emit (routed gj cp k (lines_read cp v)))) (allChrs cp))"
    have f1: "fs w1 = fs w ++ ?M w"
      using assms(1) unfolding final_fs_def Nil by simp
    have ri: "read_input cp w1 = read_input cp w"
    proof (cases "inputFile cp \<in> filename cp ` set (chrNames cp @ [UnknownChr])")
      case True
      then show ?thesis by (simp add: read_input_def)
    next
      case False
      then have "?M w (inputFile cp) = None"
        by (simp add: map_of_filename_other allChrs_def)
      then have "fs w1 (inputFile cp) = fs w (inputFile cp)"
        by (simp add: f1 map_add_def)
      with False show ?thesis by (simp add: read_input_def)
    qed
    then have lr: "lines_read cp w1 = lines_read cp w" "run_result cp w1 = run_result cp w"
      by (simp_all add: lines_read_def run_result_def)
    have "final_fs gj cp w1 = fs w1 ++ ?M w1"
      unfolding final_fs_def cr Nil by simp
    also have "\<dots> = fs w ++ ?M w"
      by (simp add: f1 lr map_add_twice)
    also have "\<dots> = final_fs gj cp w"
      unfolding final_fs_def Nil by simp
    finally have "final_fs gj cp w1 = final_fs gj cp w" .
    moreover have "final_result cp w1 = final_result cp w"
      unfolding final_result_def cr Nil by (simp add: lr)
    ultimately show ?thesis by simp
  next
    case (Cons c rest)
    let ?M = "map_of (map (\<lambda>k. (filename cp k, [])) (takeWhile (creatable cp w) (allChrs cp)))"
    have f1: "fs w1 = fs w ++ ?M"
      using assms(1) unfolding final_fs_def Cons by simp
    have "final_fs gj cp w1 = fs w1 ++ ?M"
      unfolding final_fs_def cr Cons by simp
    also have "\<dots> = fs w ++ ?M"
      by (simp add: f1 map_add_twice)
    also have "\<dots> = final_fs gj cp w"
      unfolding final_fs_def Cons by simp
    finally have "final_fs gj cp w1 = final_fs gj cp w" .
    moreover have "final_result cp w1 = final_result cp w"
      unfolding final_result_def cr Cons by simp
    ultimately show ?thesis by simp
  qed
  from both show "final_result cp w1 = final_result cp w" by simp
  from both show "final_fs gj cp w1 = final_fs gj cp w" by simp
qed

subsection \<open>Repeated names\<close>

lemma set_dedup [simp]: "set (dedup xs) = set xs"
  by (induction xs rule: dedup.induct) auto

lemma distinct_dedup [simp]: "distinct (dedup xs)"
  by (induction xs rule: dedup.induct) auto

lemma dedup_distinct: "distinct xs \<Longrightarrow> dedup xs = xs"
  by (induction xs) (simp_all add: removeAll_id)

lemma hd_dropWhile_removeAll:
  "P x \<Longrightarrow> hd (dropWhile P (removeAll x xs @ ys)) = hd (dropWhile P (xs @ ys))"
  by (induction xs) auto

lemma set_takeWhile_removeAll:
  assumes "P x"
  shows "insert x (set (takeWhile P (removeAll x xs @ ys))) = insert x (set (takeWhile P (xs @ ys)))"
proof (induction xs)
  case Nil
  then show ?case by simp
next
  case (Cons a xs)
  show ?case
  proof (cases "a = x")
    case True
    with assms Cons show ?thesis by simp
  next
    case False
    with Cons show ?thesis by (cases "P a") (simp_all add: insert_commute)
  qed
qed

lemma hd_dropWhile_dedup:
  "hd (dropWhile P (dedup xs @ ys)) = hd (dropWhile P (xs @ ys))"
proof (induction xs rule: dedup.induct)
  case 1
  then show ?case by simp
next
  case (2 x xs)
  show ?case
  proof (cases "P x")
    case True
    then have "hd (dropWhile P (dedup (x # xs) @ ys)) = hd (dropWhile P (removeAll x xs @ ys))"
      using "2.IH" by simp
    also have "\<dots> = hd (dropWhile P (xs @ ys))"
      using True by (rule hd_dropWhile_removeAll [of P x])
    finally show ?thesis using True by simp
  next
    case False
    then show ?thesis by simp
  qed
qed

lemma set_takeWhile_dedup:
  "set (takeWhile P (dedup xs @ ys)) = set (takeWhile P (xs @ ys))"
proof (induction xs rule: dedup.induct)
  case 1
  then show ?case by simp
next
  case (2 x xs)
  show ?case
  proof (cases "P x")
    case True
    then have "set (takeWhile P (dedup (x # xs) @ ys))
        = insert x (set (takeWhile P (removeAll x xs @ ys)))"
      using "2.IH" by simp
    also have "\<dots> = insert x (set (takeWhile P (xs @ ys)))"
      using True by (rule set_takeWhile_removeAll [of P x])
    finally show ?thesis using True by simp
  next
    case False
    then show ?thesis by simp
  qed
qed

lemma dropWhile_dedup_Nil:
  "dropWhile P (dedup xs @ ys) = [] \<longleftrightarrow> dropWhile P (xs @ ys) = []"
  by (simp add: dropWhile_eq_Nil_conv)

lemma map_of_filename_set:
  assumes "set ks = set ks'"
  shows "map_of (map (\<lambda>k. (filename cp k, h k)) ks) = map_of (map (\<lambda>k. (filename cp k, h k)) ks')"
  by (rule ext) (simp add: map_of_filename assms)

lemma dedup_final:
  fixes inp pre fld :: string and names :: "string list"
  defines "cp \<equiv> NewChromosomeProcessor inp pre fld names"
    and "cp' \<equiv> NewChromosomeProcessor inp pre fld (dedup names)"
  shows "final_result cp' w = final_result cp w" and "final_fs gj cp' w = final_fs gj cp w"
proof -
  have fn: "filename cp' = filename cp"
    by (simp add: cp_def cp'_def filename_def fun_eq_iff)
  have cr: "creatable cp' w = creatable cp w"
    by (simp add: creatable_def fn fun_eq_iff)
  have al: "allChrs cp' = dedup names @ [UnknownChr]" "allChrs cp = names @ [UnknownChr]"
    by (simp_all add: allChrs_def cp_def cp'_def)
  have rt: "routed gj cp' = routed gj cp"
    by (simp add: routed_def route_def ExtractChromosome_def outputChr_def cp_def cp'_def fun_eq_iff)
  have ri: "read_input cp' w = read_input cp w"
    by (simp add: read_input_def fn) (simp add: cp_def cp'_def)
  then have lr: "lines_read cp' w = lines_read cp w" "run_result cp' w = run_result cp w"
    by (simp_all add: lines_read_def run_result_def)
  have nil: "dropWhile (creatable cp w) (allChrs cp') = [] \<longleftrightarrow> dropWhile (creatable cp w) (allChrs cp) = []"
    unfolding al by (rule dropWhile_dedup_Nil)
  have hd: "hd (dropWhile (creatable cp w) (allChrs cp')) = hd (dropWhile (creatable cp w) (allChrs cp))"
    unfolding al by (rule hd_dropWhile_dedup)
  have tk: "set (takeWhile (creatable cp w) (allChrs cp')) = set (takeWhile (creatable cp w) (allChrs cp))"
    unfolding al by (rule set_takeWhile_dedup)
  have st: "set (allChrs cp') = set (allChrs cp)"
    by (simp add: al)
  show "final_result cp' w = final_result cp w"
    unfolding final_result_alt cr nil hd lr fn by (rule refl)
  show "final_fs gj cp' w = final_fs gj cp w"
    unfolding final_fs_alt cr nil fn rt lr
      map_of_filename_set [OF st] map_of_filename_set [OF tk] by (rule refl)
qed

subsection \<open>Records of the output files\<close>

lemma records_line:
  assumes "newline \<notin> set l"
  shows "records (l @ newline # rest) = l # records rest"
proof -
  have "takeWhile (\<lambda>c. c \<noteq> newline) (l @ newline # rest) = l"
    using assms by (induction l) auto
  then show ?thesis
    by (subst records_Cons) simp_all
qed

lemma records_emit:
  "\<forall>l\<in>set ls. newline \<notin> set l \<Longrightarrow> records (emit ls) = ls"
  by (induction ls) (simp_all add: records_line)

lemma records_no_newline:
  "r \<in> set (records d) \<Longrightarrow> newline \<notin> set r"
proof (induction d arbitrary: r rule: records.induct)
  case (1 data)
  show ?case
  proof (cases "data = []")
    case True
    with "1.prems" show ?thesis by simp
  next
    case False
    from "1.prems" False
    have "r = takeWhile (\<lambda>c. c \<noteq> newline) data \<or>
          r \<in> set (records (drop (Suc (length (takeWhile (\<lambda>c. c \<noteq> newline) data))) data))"
      by (subst (asm) records_Cons) auto
    then show ?thesis
    proof
      assume "r = takeWhile (\<lambda>c. c \<noteq> newline) data"
      then show ?thesis using set_takeWhileD [of newline "\<lambda>c. c \<noteq> newline" data] by auto
    next
      assume "r \<in> set (records (drop (Suc (length (takeWhile (\<lambda>c. c \<noteq> newline) data))) data))"
      then show ?thesis using "1.IH" [OF False] by simp
    qed
  qed
qed

lemma dropCR_subset: "set (dropCR l) \<subseteq> set l"
  by (auto simp: dropCR_def dest: in_set_butlastD)

lemma scanned_no_newline:
  assumes "l \<in> set (scanned mx d)"
  shows "newline \<notin> set l"
proof -
  from assms obtain r where "r \<in> set (records d)" "l = dropCR r"
    by (auto simp: scanned_def dest: set_takeWhileD)
  then show ?thesis using records_no_newline [of r d] dropCR_subset [of r] by auto
qed


lemma length_partition:
  assumes "finite A" "\<forall>l\<in>set ls. Q l \<longrightarrow> f l \<in> A"
  shows "(\<Sum>k\<in>A. length (filter (\<lambda>l. Q l \<and> f l = k) ls)) = length (filter Q ls)"
  using assms(2)
proof (induction ls)
  case Nil
  then show ?case by simp
next
  case (Cons l ls)
  then have IH: "(\<Sum>k\<in>A. length (filter (\<lambda>l. Q l \<and> f l = k) ls)) = length (filter Q ls)"
    by simp
  show ?case
  proof (cases "Q l")
    case True
    with Cons.prems have mem: "f l \<in> A" by simp
    have "(\<Sum>k\<in>A. length (filter (\<lambda>l. Q l \<and> f l = k) (l # ls)))
        = (\<Sum>k\<in>A. (if f l = k then 1 else 0) + length (filter (\<lambda>l. Q l \<and> f l = k) ls))"
      using True by (intro sum.cong) auto
    also have "\<dots> = (\<Sum>k\<in>A. if f l = k then 1 else 0)
                     + (\<Sum>k\<in>A. length (filter (\<lambda>l. Q l \<and> f l = k) ls))"
      by (rule sum.distrib)
    also have "(\<Sum>k\<in>A. if f l = k then 1 else 0) = (1::nat)"
      using assms(1) mem by (simp add: sum.delta')
    finally show ?thesis using True IH by simp
  next
    case False
    then show ?thesis using IH by simp
  qed
qed

lemma lines_read_no_newline:
  "l \<in> set (lines_read cp w) \<Longrightarrow> newline \<notin> set l"
  by (auto simp: lines_read_def split: option.splits dest: scanned_no_newline)

lemma records_routed:
  "records (emit (routed gj cp k (lines_read cp' w))) = routed gj cp k (lines_read cp' w)"
  by (rule records_emit) (auto simp: routed_def dest: lines_read_no_newline)

lemma route_unknown:
  assumes "gj l fld = None \<or> (\<exists>v. gj l fld = Some v \<and> v \<notin> set names)"
  shows "route gj (NewChromosomeProcessor inp pre fld names) l = UnknownChr"
  using assms by (auto simp: route_def ExtractChromosome_def outputChr_def)

lemma routed_nonblank:
  "routed gj cp k (filter (\<lambda>l. l \<noteq> []) ls) = routed gj cp k ls"
  by (induction ls) (auto simp: routed_def)

subsection \<open>Descriptors left open\<close>

text \<open>
  Writing and flushing open and close nothing, and \<^verbatim>\<open>CloseAllFiles\<close> closes what the
  map of files holds. When no category name is repeated, every descriptor that
  initialization opened is in the map at every moment, and no run, failed or not, leaves
  a descriptor open that was not open before (\<open>no_leak_run\<close>).
\<close>

lemma file_Write_dom: "dom (fds (snd (file_Write fd p w))) = dom (fds w)"
  by (auto simp: file_Write_def split: option.splits)

lemma bufio_Flush_dom: "dom (fds (snd (bufio_Flush wr w))) = dom (fds w)"
proof (cases "wrs w wr")
  case None
  then show ?thesis by (simp add: bufio_Flush_def)
next
  case (Some b)
  obtain e w1 where fw: "file_Write (bw_fd b) (bw_buf b) w = (e, w1)"
    by (cases "file_Write (bw_fd b) (bw_buf b) w")
  with file_Write_dom [of "bw_fd b" "bw_buf b" w] have "dom (fds w1) = dom (fds w)"
    by simp
  with Some fw show ?thesis
    by (cases e) (simp_all add: bufio_Flush_def)
qed

lemma FlushAllWriters_dom: "dom (fds (FlushAllWriters cp w)) = dom (fds w)"
proof -
  have "dom (fds (foldl (\<lambda>w1 (chr, writer). snd (bufio_Flush writer w1)) w l)) = dom (fds w)" for l
    by (induction l arbitrary: w) (simp_all add: split_beta bufio_Flush_dom)
  then show ?thesis by (simp add: FlushAllWriters_def)
qed

lemma CloseAllFiles_dom:
  "dom (fds (CloseAllFiles cp w)) = dom (fds w) - snd ` set (outputFiles cp)"
  using FlushAllWriters_dom [of cp w]
  by (auto simp: CloseAllFiles_eq dom_def split: if_splits)

lemma update_new_key: "k \<notin> fst ` set al \<Longrightarrow> AList.update k v al = al @ [(k, v)]"
  by (induction al) auto

lemma createAll_no_leak:
  assumes "distinct cs" "set cs \<inter> fst ` set (outputFiles cp) = {}"
    "dom (fds w) \<subseteq> D \<union> snd ` set (outputFiles cp)"
    "createAll cs cp w = (r, cp', w')"
  shows "dom (fds w') \<subseteq> (if r = None then D \<union> snd ` set (outputFiles cp') else D)"
  using assms
proof (induction cs arbitrary: cp w)
  case Nil
  then show ?case by simp
next
  case (Cons chr rest)
  show ?case
  proof (cases "nocreate w (filename cp chr)")
    case True
    with Cons.prems(4) have "r = Some (CreateFailed (filename cp chr))" "w' = CloseAllFiles cp w"
      by (auto simp: os_Create_def)
    with Cons.prems(3) show ?thesis
      by (auto simp: CloseAllFiles_dom)
  next
    case False
    define cp1 where "cp1 = cp\<lparr>outputFiles := AList.update chr (nextfd w) (outputFiles cp),
                     outputWriters := AList.update chr (nextwr w) (outputWriters cp)\<rparr>"
    define w1 where "w1 = w\<lparr>fs := (fs w)(filename cp chr \<mapsto> []),
          fds := (fds w)(nextfd w \<mapsto> \<lparr>fd_path = filename cp chr, fd_off = 0\<rparr>),
          nextfd := Suc (nextfd w),
          wrs := (wrs w)(nextwr w \<mapsto> \<lparr>bw_fd = nextfd w, bw_size = 4 * 1024 * 1024, bw_buf = [], bw_err = False\<rparr>),
          nextwr := Suc (nextwr w)\<rparr>"
    have step: "createAll (chr # rest) cp w = createAll rest cp1 w1"
      unfolding cp1_def w1_def by (rule createAll_Cons_ok [OF False])
    from Cons.prems(2) have new: "chr \<notin> fst ` set (outputFiles cp)" by simp
    then have of1: "outputFiles cp1 = outputFiles cp @ [(chr, nextfd w)]"
      by (simp add: cp1_def update_new_key)
    have a: "distinct rest" using Cons.prems(1) by simp
    have b: "set rest \<inter> fst ` set (outputFiles cp1) = {}"
      using Cons.prems(1,2) by (auto simp: of1)
    have c: "dom (fds w1) \<subseteq> D \<union> snd ` set (outputFiles cp1)"
      using Cons.prems(3) by (auto simp: of1 w1_def)
    from Cons.prems(4) step have d: "createAll rest cp1 w1 = (r, cp', w')" by simp
    from Cons.IH [OF a b c d] show ?thesis .
  qed
qed

lemma bufio_put_dom: "dom (fds (snd (bufio_put wr p w))) = dom (fds w)"
proof (cases "wrs w wr")
  case None
  then show ?thesis by (simp add: bufio_put_def)
next
  case (Some b)
  obtain e w1 where fw: "file_Write (bw_fd b) p w = (e, w1)"
    by (cases "file_Write (bw_fd b) p w")
  with file_Write_dom [of "bw_fd b" p w] have "dom (fds w1) = dom (fds w)"
    by simp
  with Some fw show ?thesis
    by (cases e) (simp_all add: bufio_put_def)
qed

lemma bufio_Write_dom: "dom (fds (snd (bufio_Write wr p w))) = dom (fds w)"
proof (cases "wrs w wr")
  case None
  then show ?thesis by (simp add: bufio_Write_def)
next
  case (Some b)
  define n where "n = bw_size b - length (bw_buf b)"
  define w1 where "w1 = w\<lparr>wrs := (wrs w)(wr \<mapsto> b\<lparr>bw_buf := bw_buf b @ take n p\<rparr>)\<rparr>"
  obtain e w2 where fl: "bufio_Flush wr w1 = (e, w2)"
    by (cases "bufio_Flush wr w1")
  with bufio_Flush_dom [of wr w1] have d2: "dom (fds w2) = dom (fds w)"
    by (simp add: w1_def)
  have "dom (fds (snd (bufio_put wr (drop n p) w2))) = dom (fds w)"
    using bufio_put_dom [of wr "drop n p" w2] d2 by simp
  with Some fl d2 show ?thesis
    by (cases e) (simp_all add: bufio_Write_def bufio_put_dom Let_def n_def [symmetric] w1_def [symmetric])
qed

lemma bufio_WriteByte_dom: "dom (fds (snd (bufio_WriteByte wr c w))) = dom (fds w)"
proof (cases "wrs w wr")
  case None
  then show ?thesis by (simp add: bufio_WriteByte_def)
next
  case (Some b)
  obtain e w1 where fl: "bufio_Flush wr w = (e, w1)"
    by (cases "bufio_Flush wr w")
  with bufio_Flush_dom [of wr w] have "dom (fds w1) = dom (fds w)"
    by simp
  with Some fl show ?thesis
    by (cases e) (simp_all add: bufio_WriteByte_def)
qed

lemma scanLoop_dom: "dom (fds (snd (snd (snd (scanLoop gj cp n s w))))) = dom (fds w)"
proof (induction "length (sc_data s)" arbitrary: s w n rule: less_induct)
  case less
  show ?case
  proof (cases "fst (Scan s)")
    case False
    then show ?thesis by (subst scanLoop.simps) simp
  next
    case True
    define s1 where "s1 = snd (Scan s)"
    have shorter: "length (sc_data s1) < length (sc_data s)"
      using True by (auto simp: s1_def Scan_def Let_def split: if_splits)
    note IH = less.hyps [OF shorter]
    show ?thesis
    proof (cases "Bytes s1 = []")
      case True
      with \<open>fst (Scan s)\<close> have "scanLoop gj cp n s w = scanLoop gj cp (n + 1) s1 w"
        by (subst scanLoop.simps) (simp add: s1_def Let_def)
      with IH show ?thesis by simp
    next
      case False
      obtain chr found where ex: "ExtractChromosome gj cp (Bytes s1) = (chr, found)"
        by (cases "ExtractChromosome gj cp (Bytes s1)")
      show ?thesis
      proof (cases "GetOutputWriter cp (outputChr cp chr found)")
        case None
        with \<open>fst (Scan s)\<close> False ex show ?thesis
          by (subst scanLoop.simps) (simp add: s1_def [symmetric] Let_def)
      next
        case (Some writer)
        obtain e1 w1 where a: "bufio_Write writer (Bytes s1) w = (e1, w1)"
          by (cases "bufio_Write writer (Bytes s1) w")
        obtain e2 w2 where b: "bufio_WriteByte writer newline w1 = (e2, w2)"
          by (cases "bufio_WriteByte writer newline w1")
        from a bufio_Write_dom [of writer "Bytes s1" w] have d1: "dom (fds w1) = dom (fds w)"
          by simp
        from b bufio_WriteByte_dom [of writer newline w1] d1 have d2: "dom (fds w2) = dom (fds w)"
          by simp
        from IH [where w = w2 and n = "n + 1"] d2
        have d3: "dom (fds (snd (snd (snd (scanLoop gj cp (n + 1) s1 w2))))) = dom (fds w)"
          by simp
        from \<open>fst (Scan s)\<close> False ex Some a b d1 d2 d3 show ?thesis
          by (subst scanLoop.simps) (cases e1; cases e2; simp add: s1_def [symmetric] Let_def)
      qed
    qed
  qed
qed

lemma file_Close_dom: "dom (fds (file_Close fd w)) = dom (fds w) - {fd}"
  by (auto simp: file_Close_def)

lemma os_Open_dom:
  "os_Open name w = (Some fd, w1) \<Longrightarrow> dom (fds w1) = insert fd (dom (fds w))"
  by (auto simp: os_Open_def split: option.splits)

lemma no_leak_run:
  assumes "distinct (names @ [UnknownChr])"
  shows "dom (fds (snd (snd (ProcessFile gj (NewChromosomeProcessor inp pre fld names) w)))) \<subseteq> dom (fds w)"
proof -
  let ?cp = "NewChromosomeProcessor inp pre fld names"
  obtain r cp1 w1 where i: "InitializeOutputFiles ?cp w = (r, cp1, w1)"
    by (cases "InitializeOutputFiles ?cp w")
  then have c: "createAll (names @ [UnknownChr]) ?cp w = (r, cp1, w1)"
    by (simp add: InitializeOutputFiles_def)
  note leak = createAll_no_leak [OF assms _ _ c, of "dom (fds w)"]
  show ?thesis
  proof (cases r)
    case (Some e)
    with leak have "dom (fds w1) \<subseteq> dom (fds w)" by simp
    moreover from i Some have "snd (snd (ProcessFile gj ?cp w)) = w1"
      by (simp add: ProcessFile_def)
    ultimately show ?thesis by simp
  next
    case None
    with leak have d1: "dom (fds w1) \<subseteq> dom (fds w) \<union> snd ` set (outputFiles cp1)" by simp
    have close: "dom (fds (CloseAllFiles cp1 v)) \<subseteq> dom (fds w)"
      if "dom (fds v) \<subseteq> dom (fds w1)" for v
      using that d1 by (auto simp: CloseAllFiles_dom)
    show ?thesis
    proof (cases "os_Open (inputFile cp1) w1")
      case (Pair o2 w2)
      show ?thesis
      proof (cases o2)
        case None': None
        with Pair have "w2 = w1" by (auto simp: os_Open_def split: option.splits)
        with i None Pair None' have "snd (snd (ProcessFile gj ?cp w)) = CloseAllFiles cp1 w1"
          by (simp add: ProcessFile_def)
        with close [of w1] show ?thesis by simp
      next
        case (Some fd)
        with Pair have d2: "dom (fds w2) = insert fd (dom (fds w1))"
          by (simp add: os_Open_dom)
        define sc where "sc = Buffer (bufio_NewScanner fd w2) 10485760"
        obtain r3 n3 s3 w3 where l: "scanLoop gj cp1 0 sc w2 = (r3, n3, s3, w3)"
          by (cases "scanLoop gj cp1 0 sc w2")
        with scanLoop_dom [of gj cp1 0 sc w2] d2 have d3: "dom (fds w3) = insert fd (dom (fds w1))"
          by simp
        have a: "dom (fds (file_Close fd w3)) \<subseteq> dom (fds w1)"
          using d3 by (auto simp: file_Close_dom)
        have b: "dom (fds (file_Close fd (FlushAllWriters cp1 w3))) \<subseteq> dom (fds w1)"
          using d3 by (auto simp: file_Close_dom FlushAllWriters_dom)
        have "snd (snd (ProcessFile gj ?cp w)) = CloseAllFiles cp1 (file_Close fd w3) \<or>
              snd (snd (ProcessFile gj ?cp w)) = CloseAllFiles cp1 (file_Close fd (FlushAllWriters cp1 w3))"
          using i None Pair Some l
          by (cases r3) (simp_all add: ProcessFile_def sc_def)
        then show ?thesis
          using close [OF a] close [OF b] by (elim disjE) simp_all
      qed
    qed
  qed
qed

text \<open>
  No step of a run moves an open descriptor to another path: the paths of the open
  descriptors change only where a file is opened or closed. So a descriptor that
  initialization opened and the map of files does not hold is open on its path when the
  run ends (\<open>run_paths\<close>).
\<close>

lemma open_paths_wrs [simp]: "open_paths (w\<lparr>wrs := x\<rparr>) = open_paths w"
  by (simp add: open_paths_def)

lemma file_Write_paths: "open_paths (snd (file_Write fd p w)) = open_paths w"
  by (auto simp: open_paths_def file_Write_def fun_eq_iff split: option.splits)

lemma bufio_Flush_paths: "open_paths (snd (bufio_Flush wr w)) = open_paths w"
proof (cases "wrs w wr")
  case None
  then show ?thesis by (simp add: bufio_Flush_def)
next
  case (Some b)
  obtain e w1 where fw: "file_Write (bw_fd b) (bw_buf b) w = (e, w1)"
    by (cases "file_Write (bw_fd b) (bw_buf b) w")
  with file_Write_paths [of "bw_fd b" "bw_buf b" w] have "open_paths w1 = open_paths w"
    by simp
  with Some fw show ?thesis
    by (cases e) (simp_all add: bufio_Flush_def)
qed

lemma FlushAllWriters_paths: "open_paths (FlushAllWriters cp w) = open_paths w"
proof -
  have "open_paths (foldl (\<lambda>w1 (chr, writer). snd (bufio_Flush writer w1)) w l) = open_paths w" for l
    by (induction l arbitrary: w) (simp_all add: split_beta bufio_Flush_paths)
  then show ?thesis by (simp add: FlushAllWriters_def)
qed

lemma CloseAllFiles_paths:
  "open_paths (CloseAllFiles cp w) =
     (\<lambda>fd. if fd \<in> snd ` set (outputFiles cp) then None else open_paths w fd)"
  using FlushAllWriters_paths [of cp w]
  by (subst CloseAllFiles_eq) (auto simp: open_paths_def fun_eq_iff)

lemma bufio_put_paths: "open_paths (snd (bufio_put wr p w)) = open_paths w"
proof (cases "wrs w wr")
  case None
  then show ?thesis by (simp add: bufio_put_def)
next
  case (Some b)
  obtain e w1 where fw: "file_Write (bw_fd b) p w = (e, w1)"
    by (cases "file_Write (bw_fd b) p w")
  with file_Write_paths [of "bw_fd b" p w] have "open_paths w1 = open_paths w"
    by simp
  with Some fw show ?thesis
    by (cases e) (simp_all add: bufio_put_def)
qed

lemma bufio_Write_paths: "open_paths (snd (bufio_Write wr p w)) = open_paths w"
proof (cases "wrs w wr")
  case None
  then show ?thesis by (simp add: bufio_Write_def)
next
  case (Some b)
  define n where "n = bw_size b - length (bw_buf b)"
  define w1 where "w1 = w\<lparr>wrs := (wrs w)(wr \<mapsto> b\<lparr>bw_buf := bw_buf b @ take n p\<rparr>)\<rparr>"
  obtain e w2 where fl: "bufio_Flush wr w1 = (e, w2)"
    by (cases "bufio_Flush wr w1")
  with bufio_Flush_paths [of wr w1] have d2: "open_paths w2 = open_paths w"
    by (simp add: w1_def)
  have "open_paths (snd (bufio_put wr (drop n p) w2)) = open_paths w"
    using bufio_put_paths [of wr "drop n p" w2] d2 by simp
  with Some fl d2 show ?thesis
    by (cases e) (simp_all add: bufio_Write_def bufio_put_paths Let_def n_def [symmetric] w1_def [symmetric])
qed

lemma bufio_WriteByte_paths: "open_paths (snd (bufio_WriteByte wr c w)) = open_paths w"
proof (cases "wrs w wr")
  case None
  then show ?thesis by (simp add: bufio_WriteByte_def)
next
  case (Some b)
  obtain e w1 where fl: "bufio_Flush wr w = (e, w1)"
    by (cases "bufio_Flush wr w")
  with bufio_Flush_paths [of wr w] have "open_paths w1 = open_paths w"
    by simp
  with Some fl show ?thesis
    by (cases e) (simp_all add: bufio_WriteByte_def)
qed

lemma scanLoop_paths: "open_paths (snd (snd (snd (scanLoop gj cp n s w)))) = open_paths w"
proof (induction "length (sc_data s)" arbitrary: s w n rule: less_induct)
  case less
  show ?case
  proof (cases "fst (Scan s)")
    case False
    then show ?thesis by (subst scanLoop.simps) simp
  next
    case True
    define s1 where "s1 = snd (Scan s)"
    have shorter: "length (sc_data s1) < length (sc_data s)"
      using True by (auto simp: s1_def Scan_def Let_def split: if_splits)
    note IH = less.hyps [OF shorter]
    show ?thesis
    proof (cases "Bytes s1 = []")
      case True
      with \<open>fst (Scan s)\<close> have "scanLoop gj cp n s w = scanLoop gj cp (n + 1) s1 w"
        by (subst scanLoop.simps) (simp add: s1_def Let_def)
      with IH show ?thesis by simp
    next
      case False
      obtain chr found where ex: "ExtractChromosome gj cp (Bytes s1) = (chr, found)"
        by (cases "ExtractChromosome gj cp (Bytes s1)")
      show ?thesis
      proof (cases "GetOutputWriter cp (outputChr cp chr found)")
        case None
        with \<open>fst (Scan s)\<close> False ex show ?thesis
          by (subst scanLoop.simps) (simp add: s1_def [symmetric] Let_def)
      next
        case (Some writer)
        obtain e1 w1 where a: "bufio_Write writer (Bytes s1) w = (e1, w1)"
          by (cases "bufio_Write writer (Bytes s1) w")
        obtain e2 w2 where b: "bufio_WriteByte writer newline w1 = (e2, w2)"
          by (cases "bufio_WriteByte writer newline w1")
        from a bufio_Write_paths [of writer "Bytes s1" w] have d1: "open_paths w1 = open_paths w"
          by simp
        from b bufio_WriteByte_paths [of writer newline w1] d1 have d2: "open_paths w2 = open_paths w"
          by simp
        from IH [where w = w2 and n = "n + 1"] d2
        have d3: "open_paths (snd (snd (snd (scanLoop gj cp (n + 1) s1 w2)))) = open_paths w"
          by simp
        from \<open>fst (Scan s)\<close> False ex Some a b d1 d2 d3 show ?thesis
          by (subst scanLoop.simps) (cases e1; cases e2; simp add: s1_def [symmetric] Let_def)
      qed
    qed
  qed
qed

lemma file_Close_paths: "open_paths (file_Close fd w) = (open_paths w)(fd := None)"
  by (auto simp: open_paths_def file_Close_def)

lemma os_Open_paths:
  "os_Open name w = (Some fd, w1) \<Longrightarrow> fd = nextfd w \<and> open_paths w1 = (open_paths w)(fd \<mapsto> name)"
  by (auto simp: open_paths_def os_Open_def split: option.splits)

lemma run_paths:
  assumes "InitializeOutputFiles cp w = (None, cp1, w1)" "fd \<noteq> nextfd w1"
  shows "open_paths (snd (snd (ProcessFile gj cp w))) fd =
           (if fd \<in> snd ` set (outputFiles cp1) then None else open_paths w1 fd)"
proof (cases "os_Open (inputFile cp1) w1")
  case (Pair o2 w2)
  show ?thesis
  proof (cases o2)
    case None
    with Pair have "w2 = w1" by (auto simp: os_Open_def split: option.splits)
    with assms(1) Pair None have "snd (snd (ProcessFile gj cp w)) = CloseAllFiles cp1 w1"
      by (simp add: ProcessFile_def)
    then show ?thesis by (simp add: CloseAllFiles_paths)
  next
    case (Some inp)
    with Pair have d2: "inp = nextfd w1" "open_paths w2 = (open_paths w1)(inp \<mapsto> inputFile cp1)"
      using os_Open_paths [of "inputFile cp1" w1 inp w2] by simp_all
    define sc where "sc = Buffer (bufio_NewScanner inp w2) 10485760"
    obtain r3 n3 s3 w3 where l: "scanLoop gj cp1 0 sc w2 = (r3, n3, s3, w3)"
      by (cases "scanLoop gj cp1 0 sc w2")
    with scanLoop_paths [of gj cp1 0 sc w2] have d3: "open_paths w3 = open_paths w2"
      by simp
    have a: "open_paths (file_Close inp w3) fd = open_paths w1 fd"
      using d2 d3 assms(2) by (simp add: file_Close_paths)
    have b: "open_paths (file_Close inp (FlushAllWriters cp1 w3)) fd = open_paths w1 fd"
      using d2 d3 assms(2) by (simp add: file_Close_paths FlushAllWriters_paths)
    have "snd (snd (ProcessFile gj cp w)) = CloseAllFiles cp1 (file_Close inp w3) \<or>
          snd (snd (ProcessFile gj cp w)) = CloseAllFiles cp1 (file_Close inp (FlushAllWriters cp1 w3))"
      using assms(1) Pair Some l
      by (cases r3) (simp_all add: ProcessFile_def sc_def)
    then show ?thesis
      using a b by (elim disjE) (simp_all add: CloseAllFiles_paths)
  qed
qed

section \<open>The example runs, evaluated\<close>





lemma sample_creatable:
  "\<forall>c\<in>set ([''chr1'', ''chr2''] @ [UnknownChr]).
      \<not> nocreate (sample_world data)
          (filename (NewChromosomeProcessor ''in.jsonl'' ''out'' ''chr'' [''chr1'', ''chr2'']) c)"
  by (simp add: sample_world_def)

lemma sample_read_input: "read_input sample_processor (sample_world data) = Some data"
  by (simp add: read_input_def sample_processor_def sample_world_def filename_def UnknownChr_def)

lemma sample_filename:
  "filename sample_processor ''chr1'' = ''out_chr1.jsonl''"
  "filename sample_processor ''chr2'' = ''out_chr2.jsonl''"
  "filename sample_processor ''unknown_chr'' = ''out_unknown_chr.jsonl''"
  by (simp_all add: filename_def sample_processor_def)

lemma sample_records:
  \<open>records sample_input =
     [''{"chr":"chr1","v":1}'' @ [carriage_return], [], ''{"chr":"chr2","v":2}'', ''{"v":3}'']\<close>
  by (simp add: sample_input_def records.simps)

lemma sample_routes:
  \<open>route sample_gjson sample_processor ''{"chr":"chr1","v":1}'' = ''chr1''\<close>
  \<open>route sample_gjson sample_processor ''{"chr":"chr2","v":2}'' = ''chr2''\<close>
  \<open>route sample_gjson sample_processor ''{"v":3}'' = ''unknown_chr''\<close>
  by (simp_all add: route_def ExtractChromosome_def outputChr_def sample_gjson_def
        sample_processor_def UnknownChr_def)

lemma sample_run_ok:
  "fst (ProcessFile sample_gjson sample_processor (sample_world sample_input)) = None"
proof -
  have "run_result sample_processor (sample_world sample_input) = None"
    by (simp add: run_result_def sample_read_input tooLong_def sample_records)
  then show ?thesis
    using New_outputs(1) [OF sample_creatable, of sample_gjson sample_input]
    by (simp add: sample_processor_def)
qed

lemma sample_lines:
  \<open>lines_read sample_processor (sample_world sample_input) =
     [''{"chr":"chr1","v":1}'', [], ''{"chr":"chr2","v":2}'', ''{"v":3}'']\<close>
  by (simp add: lines_read_def sample_read_input scanned_def sample_records dropCR_def)

lemma sample_fs: "fs (sample_world data) q = (if q = ''in.jsonl'' then Some data else None)"
  by (simp add: sample_world_def)

lemma long_line_facts:
  "length long_line = 10485761" "newline \<notin> set long_line"
  by (simp_all add: long_line_def)

lemma oversized_records:
  \<open>records oversized_input = [''{"chr":"chr1","v":1}'', long_line, ''{"chr":"chr2","v":2}'']\<close>
proof -
  have \<open>records ''{"chr":"chr2","v":2}'' = [''{"chr":"chr2","v":2}'']\<close>
    by (simp add: records.simps)
  then have \<open>records (long_line @ newline # ''{"chr":"chr2","v":2}'')
      = [long_line, ''{"chr":"chr2","v":2}'']\<close>
    by (simp add: records_line [OF long_line_facts(2)])
  then have \<open>records (''{"chr":"chr1","v":1}'' @ newline # long_line @ newline # ''{"chr":"chr2","v":2}'')
      = [''{"chr":"chr1","v":1}'', long_line, ''{"chr":"chr2","v":2}'']\<close>
    by (subst records_line) simp_all
  then show ?thesis by (simp add: oversized_input_def)
qed

lemma twice_init:
  "fst (InitializeOutputFiles twice_processor (sample_world d)) = None"
  "outputFiles (fst (snd (InitializeOutputFiles twice_processor (sample_world d))))
     = [(''chr1'', 4), (''unknown_chr'', 5)]"
  "nextfd (snd (snd (InitializeOutputFiles twice_processor (sample_world d)))) = 6"
  "open_paths (snd (snd (InitializeOutputFiles twice_processor (sample_world d)))) 3
     = Some ''out_chr1.jsonl''"
  by (simp_all add: InitializeOutputFiles_def twice_processor_def sample_world_def
        NewChromosomeProcessor_def filename_def UnknownChr_def os_Create_def
        bufio_NewWriterSize_def open_paths_def)

lemma twice_result:
  "fst (ProcessFile sample_gjson twice_processor (sample_world oversized_input)) = Some (ReadFailed 1)"
proof -
  have c: "\<forall>c\<in>set ([''chr1'', ''chr1''] @ [UnknownChr]).
      \<not> nocreate (sample_world oversized_input)
          (filename (NewChromosomeProcessor ''in.jsonl'' ''out'' ''chr'' [''chr1'', ''chr1'']) c)"
    by (simp add: sample_world_def)
  have r: "read_input twice_processor (sample_world oversized_input) = Some oversized_input"
    by (simp add: read_input_def twice_processor_def sample_world_def filename_def UnknownChr_def)
  have "run_result twice_processor (sample_world oversized_input) = Some (ReadFailed 1)"
    by (simp add: run_result_def r tooLong_def scanned_def oversized_records long_line_facts)
  then show ?thesis
    using New_outputs(1) [OF c, of sample_gjson] by (simp add: twice_processor_def)
qed

subsection \<open>A blank line more or less\<close>

text \<open>
  A line feed put where a line starts adds an empty record and changes nothing else: the
  lines routed to each category and whether a line is too long stay as they were.
\<close>

lemma length_takeWhile_mem:
  "x \<in> set xs \<Longrightarrow> \<not> P x \<Longrightarrow> length (takeWhile P xs) < length xs"
  by (induction xs) auto

lemma records_append:
  assumes "d1 = [] \<or> last d1 = newline"
  shows "records (d1 @ d2) = records d1 @ records d2"
  using assms
proof (induction "length d1" arbitrary: d1 rule: less_induct)
  case less
  show ?case
  proof (cases "d1 = []")
    case True
    then show ?thesis by simp
  next
    case False
    with less.prems have nl: "last d1 = newline" by simp
    let ?seg = "takeWhile (\<lambda>c. c \<noteq> newline) d1"
    let ?rest = "drop (Suc (length ?seg)) d1"
    from False nl have mem: "newline \<in> set d1"
      using last_in_set [of d1] by simp
    then have tw: "takeWhile (\<lambda>c. c \<noteq> newline) (d1 @ d2) = ?seg"
      by (simp add: takeWhile_append1)
    from mem have len: "length ?seg < length d1"
      by (rule length_takeWhile_mem) simp
    then have dr: "drop (Suc (length ?seg)) (d1 @ d2) = ?rest @ d2"
      by simp
    have rest: "?rest = [] \<or> last ?rest = newline"
    proof (cases "?rest = []")
      case True
      then show ?thesis by simp
    next
      case False
      then have "Suc (length ?seg) < length d1" by simp
      then show ?thesis using nl by (simp add: last_drop)
    qed
    have shorter: "length ?rest < length d1"
      using False by simp
    have "records (d1 @ d2) = ?seg # records (?rest @ d2)"
      using records_Cons [of "d1 @ d2"] False unfolding tw dr by simp
    also have "records (?rest @ d2) = records ?rest @ records d2"
      by (rule less.hyps [OF shorter rest])
    also have "?seg # (records ?rest @ records d2) = records d1 @ records d2"
      using records_Cons [of d1] False by simp
    finally show ?thesis .
  qed
qed

lemma records_blank_line:
  assumes "d1 = [] \<or> last d1 = newline"
  shows "records (d1 @ newline # d2) = records d1 @ [] # records d2"
proof -
  have "records (newline # d2) = [] # records d2"
    using records_line [of "[]" d2] by simp
  then show ?thesis
    using records_append [OF assms, of "newline # d2"] by simp
qed

lemma dropCR_Nil [simp]: "dropCR [] = []"
  by (simp add: dropCR_def)

lemma blank_line_routed:
  assumes "d1 = [] \<or> last d1 = newline" "0 < mx"
  shows "routed gj cp k (scanned mx (d1 @ newline # d2)) = routed gj cp k (scanned mx (d1 @ d2))"
proof -
  note A = records_blank_line [OF assms(1), of d2]
  note B = records_append [OF assms(1), of d2]
  show ?thesis
  proof (cases "\<forall>r\<in>set (records d1). length r < mx")
    case True
    then have "takeWhile (\<lambda>r. length r < mx) (records d1 @ [] # records d2)
        = records d1 @ [] # takeWhile (\<lambda>r. length r < mx) (records d2)"
      "takeWhile (\<lambda>r. length r < mx) (records d1 @ records d2)
        = records d1 @ takeWhile (\<lambda>r. length r < mx) (records d2)"
      using assms(2) by simp_all
    then show ?thesis
      unfolding scanned_def A B by (simp add: routed_def)
  next
    case False
    then obtain r where "r \<in> set (records d1)" "\<not> length r < mx" by blast
    then have "takeWhile (\<lambda>r. length r < mx) (records d1 @ ys)
        = takeWhile (\<lambda>r. length r < mx) (records d1)" for ys
      by (rule takeWhile_append1)
    then show ?thesis
      unfolding scanned_def A B by simp
  qed
qed

lemma blank_line_tooLong:
  assumes "d1 = [] \<or> last d1 = newline" "0 < mx"
  shows "tooLong mx (d1 @ newline # d2) = tooLong mx (d1 @ d2)"
  unfolding tooLong_def records_blank_line [OF assms(1), of d2] records_append [OF assms(1), of d2]
  using assms(2) by simp


lemma sample_input_split:
  \<open>sample_input =
     (''{"chr":"chr1","v":1}'' @ [carriage_return, newline]) @ newline #
       (''{"chr":"chr2","v":2}'' @ [newline] @ ''{"v":3}'')\<close>
  by (simp add: sample_input_def)

lemma sample_without_blank:
  \<open>scanned (10 * 1024 * 1024)
     ((''{"chr":"chr1","v":1}'' @ [carriage_return, newline]) @
       (''{"chr":"chr2","v":2}'' @ [newline] @ ''{"v":3}'')) =
     [''{"chr":"chr1","v":1}'', ''{"chr":"chr2","v":2}'', ''{"v":3}'']\<close>
  by (simp add: scanned_def records.simps dropCR_def)

subsection \<open>A line that is too long\<close>

text \<open>
  When the input, as the run reads it, has a record longer than the scanner's maximum of
  10 MB, \<^verbatim>\<open>ProcessFile\<close> returns an error. Every stream of the processor's mapping is
  then flushed and closed (\<open>settled\<close>), and when no category name is repeated no
  descriptor is open that was not open before the run. When the output files could be
  created the error is the read error, reported at the number of lines scanned before,
  and each output file holds exactly the lines in front of the first record that does not
  fit: that record is not skipped, and nothing behind it is read.
\<close>

lemma oversized_line_run:
  fixes gj inp pre fld names w
  defines "cp \<equiv> NewChromosomeProcessor inp pre fld names"
  defines "cp' \<equiv> fst (snd (ProcessFile gj cp w))"
  defines "w' \<equiv> snd (snd (ProcessFile gj cp w))"
  assumes "read_input cp w = Some d" "r \<in> set (records d)" "10 * 1024 * 1024 < length r"
  shows "fst (ProcessFile gj cp w) \<noteq> None \<and> settled cp' w' \<and>
     (distinct (names @ [UnknownChr]) \<longrightarrow> dom (fds w') \<subseteq> dom (fds w)) \<and>
     ((\<forall>c\<in>set (names @ [UnknownChr]). \<not> nocreate w (filename cp c)) \<longrightarrow>
        fst (ProcessFile gj cp w)
          = Some (ReadFailed (length (takeWhile (\<lambda>r. length r < 10 * 1024 * 1024) (records d)))) \<and>
        (\<forall>k\<in>set (names @ [UnknownChr]).
           fs w' (filename cp k)
             = Some (emit (routed gj cp k
                 (map dropCR (takeWhile (\<lambda>r. length r < 10 * 1024 * 1024) (records d)))))))"
proof -
  have tl: "tooLong (10 * 1024 * 1024) d"
    using assms(5,6) by (auto simp: tooLong_def list_ex_iff intro!: bexI [of _ r])
  have rr: "run_result cp w
      = Some (ReadFailed (length (takeWhile (\<lambda>r. length r < 10 * 1024 * 1024) (records d))))"
    using assms(4) tl by (simp add: run_result_def scanned_def)
  have lr: "lines_read cp w = map dropCR (takeWhile (\<lambda>r. length r < 10 * 1024 * 1024) (records d))"
    using assms(4) by (simp add: lines_read_def scanned_def)
  from New_total [of gj inp pre fld names w] obtain cp1 w1
    where t: "ProcessFile gj cp w = (final_result cp w, cp1, w1)" "settled cp1 w1"
    unfolding cp_def by blast
  have "final_result cp w \<noteq> None"
    using rr by (simp add: final_result_alt del: dropWhile_eq_Nil_conv)
  with t have a: "fst (ProcessFile gj cp w) \<noteq> None" "settled cp' w'"
    by (simp_all add: cp'_def w'_def)
  have b: "fst (ProcessFile gj cp w)
          = Some (ReadFailed (length (takeWhile (\<lambda>r. length r < 10 * 1024 * 1024) (records d)))) \<and>
        (\<forall>k\<in>set (names @ [UnknownChr]).
           fs w' (filename cp k)
             = Some (emit (routed gj cp k
                 (map dropCR (takeWhile (\<lambda>r. length r < 10 * 1024 * 1024) (records d))))))"
    if ok: "\<forall>c\<in>set (names @ [UnknownChr]). \<not> nocreate w (filename cp c)"
    using New_outputs(1,2) [OF ok [unfolded cp_def], of gj, folded cp_def w'_def] rr lr
    by (simp add: w'_def)
  have c: "dom (fds w') \<subseteq> dom (fds w)" if "distinct (names @ [UnknownChr])"
    unfolding w'_def cp_def by (rule no_leak_run [OF that])
  from a b c show ?thesis by blast
qed

lemma oversized_sample_run:
  \<open>fst (ProcessFile sample_gjson sample_processor (sample_world oversized_input))
       = Some (ReadFailed 1)
   \<and> fs (snd (snd (ProcessFile sample_gjson sample_processor (sample_world oversized_input))))
        ''out_chr1.jsonl'' = Some (''{"chr":"chr1","v":1}'' @ [newline])
   \<and> fs (snd (snd (ProcessFile sample_gjson sample_processor (sample_world oversized_input))))
        ''out_chr2.jsonl'' = Some []\<close>
proof -
  have mem: "long_line \<in> set (records oversized_input)"
    by (simp add: oversized_records)
  have len: "10 * 1024 * 1024 < length long_line"
    by (simp add: long_line_facts)
  have tk: \<open>takeWhile (\<lambda>r. length r < 10 * 1024 * 1024) (records oversized_input)
      = [''{"chr":"chr1","v":1}'']\<close>
    by (simp add: oversized_records long_line_facts)
  from oversized_line_run [of "''in.jsonl''" "''out''" "''chr''" "[''chr1'', ''chr2'']"
      "sample_world oversized_input" oversized_input long_line sample_gjson,
      folded sample_processor_def, OF sample_read_input mem len]
    sample_creatable [of oversized_input, folded sample_processor_def]
  have "fst (ProcessFile sample_gjson sample_processor (sample_world oversized_input))
          = Some (ReadFailed (length (takeWhile (\<lambda>r. length r < 10 * 1024 * 1024) (records oversized_input))))"
    and "\<forall>k\<in>set ([''chr1'', ''chr2''] @ [UnknownChr]).
           fs (snd (snd (ProcessFile sample_gjson sample_processor (sample_world oversized_input))))
              (filename sample_processor k)
             = Some (emit (routed sample_gjson sample_processor k
                 (map dropCR (takeWhile (\<lambda>r. length r < 10 * 1024 * 1024) (records oversized_input)))))"
    by blast+
  then show ?thesis
    unfolding tk by (simp add: sample_filename routed_def sample_routes dropCR_def)
qed

section \<open>The claims\<close>

subsection \<open>C1: every line goes to exactly one output\<close>




subsection \<open>C2: the routing decision\<close>

text \<open>
  C2, as stated, fails. The claim says that the routing decision returns the key itself
  if and only if the key was found and is a declared category. A record whose field
  holds the sentinel's own name, \<^verbatim>\<open>unknown_chr\<close>, is found, is not declared, and is
  routed to the sentinel: the decision returns the key itself although the key is no
  member of the declared set.
\<close>

theorem C2_counterexample:
  "outputChr (NewChromosomeProcessor ''in.jsonl'' ''out'' ''chr'' [''chr1'', ''chr2''])
       ''unknown_chr'' True = ''unknown_chr''
   \<and> ''unknown_chr'' \<notin> set [''chr1'', ''chr2'']"
  by (simp add: outputChr_def UnknownChr_def)

text \<open>
  C2, amended: for every extracted key and found flag, the routing decision returns the
  key when found is true and the key is a member of the declared category set, and the
  sentinel \<^verbatim>\<open>unknown_chr\<close> otherwise. So it returns the key itself exactly when the key
  is found and declared, or the key is the sentinel's name. The decision is a function
  of the key, the flag and the declared set alone. (Running time is not part of this
  model.)
\<close>

theorem C2_routing_decision:
  "outputChr (NewChromosomeProcessor inp pre fld names) key found =
     (if found \<and> key \<in> set names then key else UnknownChr)
   \<and> (outputChr (NewChromosomeProcessor inp pre fld names) key found = key
        \<longleftrightarrow> (found \<and> key \<in> set names) \<or> key = UnknownChr)"
  by (auto simp: outputChr_def)

theorem C2_routing_decision_witness:
  "outputChr (NewChromosomeProcessor ''in.jsonl'' ''out'' ''chr'' [''chr1'', ''chr2'']) ''chr2'' True = ''chr2''
   \<and> outputChr (NewChromosomeProcessor ''in.jsonl'' ''out'' ''chr'' [''chr1'', ''chr2'']) ''chrZ'' True = ''unknown_chr''
   \<and> outputChr (NewChromosomeProcessor ''in.jsonl'' ''out'' ''chr'' [''chr1'', ''chr2'']) [] False = ''unknown_chr''"
  using C2_routing_decision [of "''in.jsonl''" "''out''" "''chr''" "[''chr1'', ''chr2'']" "''chr2''" True]
    C2_routing_decision [of "''in.jsonl''" "''out''" "''chr''" "[''chr1'', ''chr2'']" "''chrZ''" True]
    C2_routing_decision [of "''in.jsonl''" "''out''" "''chr''" "[''chr1'', ''chr2'']" "[]" False]
  by (simp add: UnknownChr_def)

subsection \<open>C3: file names and the fallback file\<close>

text \<open>
  C3, as stated, fails. The claim names the sentinel's file \<^verbatim>\<open><prefix>_unknown.jsonl\<close>.
  The sentinel category is the constant \<^verbatim>\<open>unknown_chr\<close>, so its file is
  \<^verbatim>\<open><prefix>_unknown_chr.jsonl\<close>: in the run of the example the record without the
  field is in \<^verbatim>\<open>out_unknown_chr.jsonl\<close>, and no file \<^verbatim>\<open>out_unknown.jsonl\<close> exists.
\<close>

theorem C3_counterexample:
  \<open>fs (snd (snd (ProcessFile sample_gjson sample_processor (sample_world sample_input))))
        ''out_unknown.jsonl'' = None
   \<and> fs (snd (snd (ProcessFile sample_gjson sample_processor (sample_world sample_input))))
        ''out_unknown_chr.jsonl'' = Some (''{"v":3}'' @ [newline])\<close>
proof -
  note out = New_outputs [OF sample_creatable, of sample_gjson sample_input, folded sample_processor_def]
  have "''out_unknown.jsonl'' \<notin> filename sample_processor ` set ([''chr1'', ''chr2''] @ [UnknownChr])"
    by (simp add: sample_filename UnknownChr_def)
  with out(3) have "fs (snd (snd (ProcessFile sample_gjson sample_processor (sample_world sample_input))))
        ''out_unknown.jsonl'' = fs (sample_world sample_input) ''out_unknown.jsonl''"
    by blast
  moreover from out(2) have
    "fs (snd (snd (ProcessFile sample_gjson sample_processor (sample_world sample_input))))
        (filename sample_processor ''unknown_chr'')
       = Some (emit (routed sample_gjson sample_processor ''unknown_chr''
            (lines_read sample_processor (sample_world sample_input))))"
    by (simp add: UnknownChr_def)
  ultimately show ?thesis
    by (simp add: sample_filename sample_fs sample_lines routed_def sample_routes)
qed

text \<open>
  C3, amended: for every prefix and declared category list, the output file of a category
  is named \<^verbatim>\<open><prefix>_<category>.jsonl\<close>, and the sentinel's file is
  \<^verbatim>\<open><prefix>_unknown_chr.jsonl\<close>. When the output files could be created, every non-empty
  line the run reads whose field is absent, or whose field value is not among the declared
  categories, is a record of that file when the run ends.
\<close>

theorem C3_unknown_file:
  fixes gj inp pre fld names w
  defines "cp \<equiv> NewChromosomeProcessor inp pre fld names"
  defines "w' \<equiv> snd (snd (ProcessFile gj cp w))"
  assumes "\<forall>c\<in>set (names @ [UnknownChr]). \<not> nocreate w (filename cp c)"
  shows "(\<forall>k. filename cp k = pre @ ''_'' @ k @ ''.jsonl'') \<and>
         filename cp UnknownChr = pre @ ''_unknown_chr.jsonl'' \<and>
         (\<exists>c. fs w' (pre @ ''_unknown_chr.jsonl'') = Some c \<and>
            (\<forall>l\<in>set (lines_read cp w). l \<noteq> [] \<longrightarrow>
               (gj l fld = None \<or> (\<exists>v. gj l fld = Some v \<and> v \<notin> set names)) \<longrightarrow>
               l \<in> set (records c)))"
proof -
  have fn: "filename cp k = pre @ ''_'' @ k @ ''.jsonl''" for k
    by (simp add: filename_def cp_def)
  then have fu: "filename cp UnknownChr = pre @ ''_unknown_chr.jsonl''"
    by (simp add: UnknownChr_def)
  note out = New_outputs(2) [OF assms(3) [unfolded cp_def], of gj, folded cp_def]
  then have c: "fs w' (pre @ ''_unknown_chr.jsonl'')
       = Some (emit (routed gj cp UnknownChr (lines_read cp w)))"
    unfolding w'_def fu [symmetric] by simp
  have "l \<in> set (records (emit (routed gj cp UnknownChr (lines_read cp w))))"
    if "l \<in> set (lines_read cp w)" "l \<noteq> []"
       "gj l fld = None \<or> (\<exists>v. gj l fld = Some v \<and> v \<notin> set names)" for l
  proof -
    have "route gj cp l = UnknownChr"
      unfolding cp_def using that(3) by (rule route_unknown)
    with that(1,2) show ?thesis
      by (simp add: records_routed) (simp add: routed_def)
  qed
  with c fn fu show ?thesis by blast
qed

theorem C3_unknown_file_witness:
  \<open>filename sample_processor ''chr1'' = ''out_chr1.jsonl''
   \<and> filename sample_processor UnknownChr = ''out_unknown_chr.jsonl''
   \<and> fs (snd (snd (ProcessFile sample_gjson sample_processor (sample_world sample_input))))
        ''out_unknown_chr.jsonl'' \<noteq> None
   \<and> ''{"v":3}'' \<in> set (records (the (fs (snd (snd (ProcessFile sample_gjson sample_processor
         (sample_world sample_input)))) ''out_unknown_chr.jsonl'')))\<close>
proof -
  from C3_unknown_file [of "[''chr1'', ''chr2'']" "sample_world sample_input" "''in.jsonl''" "''out''"
      "''chr''" sample_gjson, folded sample_processor_def, OF sample_creatable [folded sample_processor_def]]
  obtain c where f: "\<forall>k. filename sample_processor k = ''out'' @ ''_'' @ k @ ''.jsonl''"
    and u: "filename sample_processor UnknownChr = ''out'' @ ''_unknown_chr.jsonl''"
    and c: "fs (snd (snd (ProcessFile sample_gjson sample_processor (sample_world sample_input))))
        (''out'' @ ''_unknown_chr.jsonl'') = Some c"
    and l: \<open>\<forall>l\<in>set (lines_read sample_processor (sample_world sample_input)). l \<noteq> [] \<longrightarrow>
               (sample_gjson l ''chr'' = None \<or> (\<exists>v. sample_gjson l ''chr'' = Some v \<and> v \<notin> set [''chr1'', ''chr2''])) \<longrightarrow>
               l \<in> set (records c)\<close>
    by blast
  have \<open>''{"v":3}'' \<in> set (lines_read sample_processor (sample_world sample_input))\<close>
    by (simp add: sample_lines)
  moreover have \<open>sample_gjson ''{"v":3}'' ''chr'' = None\<close>
    by (simp add: sample_gjson_def)
  ultimately have \<open>''{"v":3}'' \<in> set (records c)\<close>
    using l by blast
  with f u c show ?thesis by simp
qed

subsection \<open>C4: a line that is too long\<close>

text \<open>
  C4 does not hold of the code. The claim says that after a line longer than the scanner's
  maximum of 10 MB the run returns an error with all output streams flushed and closed.
  The error is returned, and what the processor's maps hold is flushed and closed
  (\<open>oversized_line_run\<close>). But a repeated category name replaces the first handle in the
  map of files by the second, and the deferred \<^verbatim>\<open>CloseAllFiles\<close> closes what the map
  holds. With the categories \<^verbatim>\<open>chr1,chr1\<close> and an input whose second line has more
  than 10 MB, the run returns the read error at line 1; the second descriptor on
  \<^verbatim>\<open>out_chr1.jsonl\<close> (number 4) is closed, and the first (number 3), which was not open
  before the run, is still open on that file when the error is returned.
\<close>

theorem C4_leak:
  "fst (ProcessFile sample_gjson twice_processor (sample_world oversized_input)) = Some (ReadFailed 1)
   \<and> open_paths (sample_world oversized_input) 3 = None
   \<and> open_paths (snd (snd (ProcessFile sample_gjson twice_processor (sample_world oversized_input)))) 3
       = Some ''out_chr1.jsonl''
   \<and> open_paths (snd (snd (ProcessFile sample_gjson twice_processor (sample_world oversized_input)))) 4
       = None"
proof -
  obtain r cp1 w1
    where i: "InitializeOutputFiles twice_processor (sample_world oversized_input) = (r, cp1, w1)"
    by (cases "InitializeOutputFiles twice_processor (sample_world oversized_input)")
  with twice_init [of oversized_input]
  have f: "r = None" "outputFiles cp1 = [(''chr1'', 4), (''unknown_chr'', 5)]" "nextfd w1 = 6"
    "open_paths w1 3 = Some ''out_chr1.jsonl''"
    by simp_all
  from i f(1) have i': "InitializeOutputFiles twice_processor (sample_world oversized_input) = (None, cp1, w1)"
    by simp
  have a: "open_paths (snd (snd (ProcessFile sample_gjson twice_processor (sample_world oversized_input)))) 3
       = Some ''out_chr1.jsonl''"
    using run_paths [OF i', of 3 sample_gjson] f by simp
  have b: "open_paths (snd (snd (ProcessFile sample_gjson twice_processor (sample_world oversized_input)))) 4
       = None"
    using run_paths [OF i', of 4 sample_gjson] f by simp
  have c: "open_paths (sample_world oversized_input) 3 = None"
    by (simp add: open_paths_def sample_world_def)
  from twice_result a b c show ?thesis by simp
qed

subsection \<open>C5: a failed creation\<close>

text \<open>
  C5 does not hold of the code. The claim says that after a failed creation every output
  resource created before is released, so that no open handle remains. The processor
  keeps one file per category name in a map; a repeated name replaces the first handle in
  the map by the second, and \<^verbatim>\<open>CloseAllFiles\<close> closes what the map holds. With the
  categories \<^verbatim>\<open>a,a,x/y\<close> and no directory \<^verbatim>\<open>out_x\<close>, the creation of the third file
  fails; the run reports that error and ends before the input is opened, the second
  descriptor on \<^verbatim>\<open>out_a.jsonl\<close> (number 4) is closed, and the first (number 3), which
  was not open before the run, is still open. Without a repeated name the claim holds
  (\<open>no_leak_run\<close>).
\<close>

theorem C5_leak:
  "fst (ProcessFile sample_gjson repeated_processor nodir_world)
       = Some (CreateFailed ''out_x/y.jsonl'')
   \<and> fds nodir_world 3 = None
   \<and> fds (snd (snd (ProcessFile sample_gjson repeated_processor nodir_world))) 3
       = Some \<lparr>fd_path = ''out_a.jsonl'', fd_off = 0\<rparr>
   \<and> fds (snd (snd (ProcessFile sample_gjson repeated_processor nodir_world))) 4 = None"
  by (simp add: ProcessFile_def InitializeOutputFiles_def repeated_processor_def nodir_world_def
        NewChromosomeProcessor_def filename_def os_Create_def bufio_NewWriterSize_def
        CloseAllFiles_def FlushAllWriters_def bufio_Flush_def file_Close_def)

subsection \<open>C6: what exists after initialization\<close>

text \<open>
  C6, as stated, fails in its last part. The claim says that the sentinel category cannot
  be constructed by the user through the declared category list. Nothing in the code
  keeps the name \<^verbatim>\<open>unknown_chr\<close> out of the list: declared, it is a member of the
  category set like any other name.
\<close>

theorem C6_counterexample:
  "UnknownChr \<in> set (chrNames (NewChromosomeProcessor ''in.jsonl'' ''out'' ''chr'' [''chr1'', ''unknown_chr'']))
   \<and> chrSet_at (NewChromosomeProcessor ''in.jsonl'' ''out'' ''chr'' [''chr1'', ''unknown_chr'']) UnknownChr"
  by (simp add: UnknownChr_def)

text \<open>
  C6, amended: after a successful \<^verbatim>\<open>InitializeOutputFiles\<close>, every declared category and
  the sentinel category have a stream: a writer and a file in the processor's two maps,
  the writer with an empty buffer, the file's descriptor open at offset 0 on the
  category's path, and the file on disk, empty. All of this is there before the input is
  opened, since \<^verbatim>\<open>ProcessFile\<close> initializes first; and when that run ends, every one of
  these files still exists, empty if no record was routed to it. The sentinel is always
  among them. (The declared list may itself contain the sentinel's name; the sentinel
  then is a declared category too, with the one stream of that name.)
\<close>

theorem C6_initialized:
  fixes inp pre fld names w gj
  defines "cp \<equiv> NewChromosomeProcessor inp pre fld names"
  defines "cp' \<equiv> fst (snd (InitializeOutputFiles cp w))"
  defines "w' \<equiv> snd (snd (InitializeOutputFiles cp w))"
  assumes "fst (InitializeOutputFiles cp w) = None"
  shows "(\<forall>k\<in>set (names @ [UnknownChr]).
            \<exists>wr fd sz. map_of (outputWriters cp') k = Some wr \<and> map_of (outputFiles cp') k = Some fd \<and>
              wrs w' wr = Some \<lparr>bw_fd = fd, bw_size = sz, bw_buf = [], bw_err = False\<rparr> \<and>
              fds w' fd = Some \<lparr>fd_path = filename cp k, fd_off = 0\<rparr> \<and>
              fs w' (filename cp k) = Some []) \<and>
         UnknownChr \<in> fst ` set (outputWriters cp') \<and>
         (\<forall>k\<in>set (names @ [UnknownChr]).
            fs (snd (snd (ProcessFile gj cp w))) (filename cp k) \<noteq> None \<and>
            (routed gj cp k (lines_read cp w) = [] \<longrightarrow>
               fs (snd (snd (ProcessFile gj cp w))) (filename cp k) = Some []))"
proof -
  have fresh: "outputWriters cp = []" "outputFiles cp = []"
    by (simp_all add: cp_def)
  have cr: "\<forall>c\<in>set (names @ [UnknownChr]). \<not> nocreate w (filename cp c)"
    using Init_success_creatable [OF fresh assms(4)] by (simp add: cp_def)
  then have cr': "\<forall>c\<in>set (chrNames cp @ [UnknownChr]). \<not> nocreate w (filename cp c)"
    by (simp add: cp_def)
  from InitializeOutputFiles_ok [OF fresh cr'] obtain cp1 w1
    where i: "InitializeOutputFiles cp w = (None, cp1, w1)"
      and st: "streams cp1 w1 (fs w) (\<lambda>_. [])"
      and k: "keys cp1 = set (chrNames cp) \<union> {UnknownChr}" and c: "cfg cp1 = cfg cp"
    by blast
  from i have eq: "cp' = cp1" "w' = w1" by (simp_all add: cp'_def w'_def)
  have fn: "filename cp1 = filename cp" by (rule cfg_eq [OF c])
  have one: "\<exists>wr fd sz. map_of (outputWriters cp') k = Some wr \<and> map_of (outputFiles cp') k = Some fd \<and>
              wrs w' wr = Some \<lparr>bw_fd = fd, bw_size = sz, bw_buf = [], bw_err = False\<rparr> \<and>
              fds w' fd = Some \<lparr>fd_path = filename cp k, fd_off = 0\<rparr> \<and>
              fs w' (filename cp k) = Some []"
    if "k \<in> set (names @ [UnknownChr])" for k
  proof -
    from that k have "k \<in> keys cp1" by (simp add: cp_def)
    with st obtain c0 b0 where "stream cp1 w1 k c0 b0" "c0 @ b0 = []"
      by (auto simp: streams_def)
    then have "stream cp1 w1 k [] []" by simp
    then show ?thesis
      unfolding eq stream_def fn by auto
  qed
  have u: "UnknownChr \<in> fst ` set (outputWriters cp')"
    using k by (simp add: eq keys_def [symmetric])
  have after: "fs (snd (snd (ProcessFile gj cp w))) (filename cp k) \<noteq> None \<and>
            (routed gj cp k (lines_read cp w) = [] \<longrightarrow>
               fs (snd (snd (ProcessFile gj cp w))) (filename cp k) = Some [])"
    if "k \<in> set (names @ [UnknownChr])" for k
    using New_outputs(2) [OF cr [unfolded cp_def], of gj, folded cp_def] that by auto
  from one u after show ?thesis by blast
qed

theorem C6_initialized_witness:
  "fst (InitializeOutputFiles sample_processor (sample_world sample_input)) = None
   \<and> fs (snd (snd (InitializeOutputFiles sample_processor (sample_world sample_input))))
        ''out_chr1.jsonl'' = Some []
   \<and> fs (snd (snd (InitializeOutputFiles sample_processor (sample_world sample_input))))
        ''out_chr2.jsonl'' = Some []
   \<and> fs (snd (snd (InitializeOutputFiles sample_processor (sample_world sample_input))))
        ''out_unknown_chr.jsonl'' = Some []"
proof -
  have ok: "fst (InitializeOutputFiles sample_processor (sample_world sample_input)) = None"
    using InitializeOutputFiles_ok [of sample_processor "sample_world sample_input"]
      sample_creatable [of sample_input]
    by (auto simp: sample_processor_def)
  from C6_initialized [of "''in.jsonl''" "''out''" "''chr''" "[''chr1'', ''chr2'']"
      "sample_world sample_input" sample_gjson, folded sample_processor_def, OF ok]
  have "\<forall>k\<in>set ([''chr1'', ''chr2''] @ [UnknownChr]).
          \<exists>wr fd sz. map_of (outputWriters (fst (snd (InitializeOutputFiles sample_processor (sample_world sample_input))))) k = Some wr \<and>
            map_of (outputFiles (fst (snd (InitializeOutputFiles sample_processor (sample_world sample_input))))) k = Some fd \<and>
            wrs (snd (snd (InitializeOutputFiles sample_processor (sample_world sample_input)))) wr
              = Some \<lparr>bw_fd = fd, bw_size = sz, bw_buf = [], bw_err = False\<rparr> \<and>
            fds (snd (snd (InitializeOutputFiles sample_processor (sample_world sample_input)))) fd
              = Some \<lparr>fd_path = filename sample_processor k, fd_off = 0\<rparr> \<and>
            fs (snd (snd (InitializeOutputFiles sample_processor (sample_world sample_input))))
              (filename sample_processor k) = Some []"
    by blast
  then have "\<forall>k\<in>set ([''chr1'', ''chr2''] @ [UnknownChr]).
      fs (snd (snd (InitializeOutputFiles sample_processor (sample_world sample_input))))
              (filename sample_processor k) = Some []"
    by blast
  then show ?thesis
    using ok by (simp add: sample_filename UnknownChr_def)
qed

subsection \<open>C7: blank lines\<close>

text \<open>
  C7: a line without bytes is written to no output file and adds to no count of records.
  When the output files could be created, then at the end of the run no output file has
  an empty record; each output file is what the non-empty lines alone give, and is what
  the input with one of its blank lines taken out gives; and the records of all output
  files together are as many as the non-empty lines read. (The
  position reported with a read error is a line number of the input and does advance on
  blank lines, as the spec's error section says.)
\<close>

theorem C7_blank_lines:
  fixes gj inp pre fld names w
  defines "cp \<equiv> NewChromosomeProcessor inp pre fld names"
  defines "w' \<equiv> snd (snd (ProcessFile gj cp w))"
  assumes "\<forall>c\<in>set (names @ [UnknownChr]). \<not> nocreate w (filename cp c)"
  shows "\<exists>content.
           (\<forall>k\<in>set (names @ [UnknownChr]).
              fs w' (filename cp k) = Some (content k) \<and>
              [] \<notin> set (records (content k)) \<and>
              content k = emit (routed gj cp k (filter (\<lambda>l. l \<noteq> []) (lines_read cp w))) \<and>
              (\<forall>d1 d2. read_input cp w = Some (d1 @ newline # d2) \<and> (d1 = [] \<or> last d1 = newline)
                 \<longrightarrow> content k = emit (routed gj cp k (scanned (10 * 1024 * 1024) (d1 @ d2))))) \<and>
           (\<Sum>k\<in>set (names @ [UnknownChr]). length (records (content k)))
              = length (filter (\<lambda>l. l \<noteq> []) (lines_read cp w))"
proof -
  define content where "content k = emit (routed gj cp k (lines_read cp w))" for k
  have rec: "records (content k) = routed gj cp k (lines_read cp w)" for k
    unfolding content_def by (rule records_routed)
  have a: "fs w' (filename cp k) = Some (content k)" if "k \<in> set (names @ [UnknownChr])" for k
    using New_outputs(2) [OF assms(3) [unfolded cp_def], of gj, folded cp_def] that
    unfolding w'_def content_def by blast
  have b: "[] \<notin> set (records (content k))" for k
    by (simp add: rec routed_def)
  have c: "content k = emit (routed gj cp k (filter (\<lambda>l. l \<noteq> []) (lines_read cp w)))" for k
    by (simp add: content_def routed_nonblank)
  have e: "content k = emit (routed gj cp k (scanned (10 * 1024 * 1024) (d1 @ d2)))"
    if "read_input cp w = Some (d1 @ newline # d2) \<and> (d1 = [] \<or> last d1 = newline)" for k d1 d2
  proof -
    from that have "lines_read cp w = scanned (10 * 1024 * 1024) (d1 @ newline # d2)"
      by (simp add: lines_read_def)
    moreover have "routed gj cp k (scanned (10 * 1024 * 1024) (d1 @ newline # d2))
        = routed gj cp k (scanned (10 * 1024 * 1024) (d1 @ d2))"
      using that by (intro blank_line_routed) simp_all
    ultimately show ?thesis by (simp add: content_def)
  qed
  have "(\<Sum>k\<in>set (names @ [UnknownChr]).
           length (filter (\<lambda>l. l \<noteq> [] \<and> route gj cp l = k) (lines_read cp w)))
        = length (filter (\<lambda>l. l \<noteq> []) (lines_read cp w))"
    by (rule length_partition) (use route_New_in [of gj inp pre fld names] in \<open>simp_all add: cp_def\<close>)
  then have d: "(\<Sum>k\<in>set (names @ [UnknownChr]). length (records (content k)))
              = length (filter (\<lambda>l. l \<noteq> []) (lines_read cp w))"
    by (simp add: rec routed_def)
  have "\<forall>k\<in>set (names @ [UnknownChr]).
              fs w' (filename cp k) = Some (content k) \<and>
              [] \<notin> set (records (content k)) \<and>
              content k = emit (routed gj cp k (filter (\<lambda>l. l \<noteq> []) (lines_read cp w))) \<and>
              (\<forall>d1 d2. read_input cp w = Some (d1 @ newline # d2) \<and> (d1 = [] \<or> last d1 = newline)
                 \<longrightarrow> content k = emit (routed gj cp k (scanned (10 * 1024 * 1024) (d1 @ d2))))"
    using a b c e by blast
  with d show ?thesis by blast
qed

theorem C7_blank_lines_witness:
  \<open>[] \<in> set (lines_read sample_processor (sample_world sample_input))
   \<and> read_input sample_processor (sample_world sample_input) =
       Some ((''{"chr":"chr1","v":1}'' @ [carriage_return, newline]) @ newline #
               (''{"chr":"chr2","v":2}'' @ [newline] @ ''{"v":3}''))
   \<and> fs (snd (snd (ProcessFile sample_gjson sample_processor (sample_world sample_input))))
        ''out_chr1.jsonl'' = Some (''{"chr":"chr1","v":1}'' @ [newline])
   \<and> fs (snd (snd (ProcessFile sample_gjson sample_processor (sample_world sample_input))))
        ''out_chr2.jsonl'' = Some (''{"chr":"chr2","v":2}'' @ [newline])
   \<and> fs (snd (snd (ProcessFile sample_gjson sample_processor (sample_world sample_input))))
        ''out_unknown_chr.jsonl'' = Some (''{"v":3}'' @ [newline])\<close>
proof -
  let ?d1 = \<open>''{"chr":"chr1","v":1}'' @ [carriage_return, newline]\<close>
  let ?d2 = \<open>''{"chr":"chr2","v":2}'' @ [newline] @ ''{"v":3}''\<close>
  have inp: "read_input sample_processor (sample_world sample_input) = Some (?d1 @ newline # ?d2)"
    unfolding sample_read_input by (simp add: sample_input_split)
  have nl: "?d1 = [] \<or> last ?d1 = newline"
    by simp
  from C7_blank_lines [of "[''chr1'', ''chr2'']" "sample_world sample_input" "''in.jsonl''" "''out''"
      "''chr''" sample_gjson, folded sample_processor_def, OF sample_creatable [folded sample_processor_def]]
  obtain content where
    "\<forall>k\<in>set ([''chr1'', ''chr2''] @ [UnknownChr]).
        fs (snd (snd (ProcessFile sample_gjson sample_processor (sample_world sample_input))))
           (filename sample_processor k) = Some (content k) \<and>
        (\<forall>d1 d2. read_input sample_processor (sample_world sample_input) = Some (d1 @ newline # d2)
             \<and> (d1 = [] \<or> last d1 = newline)
           \<longrightarrow> content k = emit (routed sample_gjson sample_processor k
                                  (scanned (10 * 1024 * 1024) (d1 @ d2))))"
    by blast
  with inp nl have "\<forall>k\<in>set ([''chr1'', ''chr2''] @ [UnknownChr]).
        fs (snd (snd (ProcessFile sample_gjson sample_processor (sample_world sample_input))))
           (filename sample_processor k)
        = Some (emit (routed sample_gjson sample_processor k
                   (scanned (10 * 1024 * 1024) (?d1 @ ?d2))))"
    by metis
  then have \<open>\<forall>k\<in>set ([''chr1'', ''chr2''] @ [UnknownChr]).
        fs (snd (snd (ProcessFile sample_gjson sample_processor (sample_world sample_input))))
           (filename sample_processor k)
        = Some (emit (routed sample_gjson sample_processor k
                   [''{"chr":"chr1","v":1}'', ''{"chr":"chr2","v":2}'', ''{"v":3}'']))\<close>
    unfolding sample_without_blank .
  then have files: \<open>fs (snd (snd (ProcessFile sample_gjson sample_processor (sample_world sample_input))))
        ''out_chr1.jsonl'' = Some (''{"chr":"chr1","v":1}'' @ [newline])
   \<and> fs (snd (snd (ProcessFile sample_gjson sample_processor (sample_world sample_input))))
        ''out_chr2.jsonl'' = Some (''{"chr":"chr2","v":2}'' @ [newline])
   \<and> fs (snd (snd (ProcessFile sample_gjson sample_processor (sample_world sample_input))))
        ''out_unknown_chr.jsonl'' = Some (''{"v":3}'' @ [newline])\<close>
    by (simp add: sample_filename routed_def sample_routes UnknownChr_def emit_def)
  have "[] \<in> set (lines_read sample_processor (sample_world sample_input))"
    by (simp add: sample_lines)
  with inp files show ?thesis by blast
qed

subsection \<open>C9: running twice\<close>

text \<open>
  C9: running the router a second time with the same input path, prefix and categories,
  on the file system the first run left, overwrites the first run's output files and
  does not append to them: the second run ends with the same result and leaves every
  file, byte for byte, as the first run left it. This holds for every starting state,
  also when the first run ended with an error.
\<close>

theorem C9_rerun_identical:
  "fst (ProcessFile gj (NewChromosomeProcessor inp pre fld names)
          (snd (snd (ProcessFile gj (NewChromosomeProcessor inp pre fld names) w))))
     = fst (ProcessFile gj (NewChromosomeProcessor inp pre fld names) w)
   \<and> fs (snd (snd (ProcessFile gj (NewChromosomeProcessor inp pre fld names)
          (snd (snd (ProcessFile gj (NewChromosomeProcessor inp pre fld names) w))))))
     = fs (snd (snd (ProcessFile gj (NewChromosomeProcessor inp pre fld names) w)))"
proof -
  let ?cp = "NewChromosomeProcessor inp pre fld names"
  from New_total [of gj inp pre fld names w] obtain cp1 w1
    where r1: "ProcessFile gj ?cp w = (final_result ?cp w, cp1, w1)"
      and f1: "fs w1 = final_fs gj ?cp w" and n1: "nocreate w1 = nocreate w"
    by blast
  from New_total [of gj inp pre fld names w1] obtain cp2 w2
    where r2: "ProcessFile gj ?cp w1 = (final_result ?cp w1, cp2, w2)"
      and f2: "fs w2 = final_fs gj ?cp w1"
    by blast
  show ?thesis
    using r1 r2 f1 f2 rerun [OF f1 n1] by simp
qed

theorem C9_rerun_identical_witness:
  \<open>fs (snd (snd (ProcessFile sample_gjson sample_processor
          (snd (snd (ProcessFile sample_gjson sample_processor (sample_world sample_input)))))))
        ''out_chr1.jsonl'' = Some (''{"chr":"chr1","v":1}'' @ [newline])
   \<and> fst (ProcessFile sample_gjson sample_processor
          (snd (snd (ProcessFile sample_gjson sample_processor (sample_world sample_input))))) = None\<close>
proof -
  note out = New_outputs(2) [OF sample_creatable, of sample_gjson sample_input, folded sample_processor_def]
  then have "fs (snd (snd (ProcessFile sample_gjson sample_processor (sample_world sample_input))))
        (filename sample_processor ''chr1'')
       = Some (emit (routed sample_gjson sample_processor ''chr1''
            (lines_read sample_processor (sample_world sample_input))))"
    by simp
  then have \<open>fs (snd (snd (ProcessFile sample_gjson sample_processor (sample_world sample_input))))
        ''out_chr1.jsonl'' = Some (''{"chr":"chr1","v":1}'' @ [newline])\<close>
    by (simp add: sample_filename sample_lines routed_def sample_routes)
  then show ?thesis
    using C9_rerun_identical [of sample_gjson "''in.jsonl''" "''out''" "''chr''" "[''chr1'', ''chr2'']"
        "sample_world sample_input", folded sample_processor_def] sample_run_ok
    by simp
qed

subsection \<open>C10: repeated category names\<close>

text \<open>
  C10: a declared category list with repeated names gives the same result and the same
  contents of every file as the list with the repetitions removed (each name kept where
  it first occurs, \<open>dedup\<close>), for every input and every starting state. The two lists
  have the same names, so the membership set and the category every line is written
  under are the same.
\<close>

theorem C10_duplicate_names:
  "fst (ProcessFile gj (NewChromosomeProcessor inp pre fld names) w)
     = fst (ProcessFile gj (NewChromosomeProcessor inp pre fld (dedup names)) w)
   \<and> fs (snd (snd (ProcessFile gj (NewChromosomeProcessor inp pre fld names) w)))
     = fs (snd (snd (ProcessFile gj (NewChromosomeProcessor inp pre fld (dedup names)) w)))
   \<and> distinct (dedup names) \<and> set (dedup names) = set names
   \<and> chrSet_at (NewChromosomeProcessor inp pre fld names)
     = chrSet_at (NewChromosomeProcessor inp pre fld (dedup names))
   \<and> route gj (NewChromosomeProcessor inp pre fld names)
     = route gj (NewChromosomeProcessor inp pre fld (dedup names))"
proof -
  have same: "chrSet_at (NewChromosomeProcessor inp pre fld names)
     = chrSet_at (NewChromosomeProcessor inp pre fld (dedup names))"
    "route gj (NewChromosomeProcessor inp pre fld names)
     = route gj (NewChromosomeProcessor inp pre fld (dedup names))"
    by (simp_all add: fun_eq_iff route_def ExtractChromosome_def outputChr_def)
  from New_total [of gj inp pre fld names w] obtain cp1 w1
    where r1: "ProcessFile gj (NewChromosomeProcessor inp pre fld names) w =
                 (final_result (NewChromosomeProcessor inp pre fld names) w, cp1, w1)"
      and f1: "fs w1 = final_fs gj (NewChromosomeProcessor inp pre fld names) w"
    by blast
  from New_total [of gj inp pre fld "dedup names" w] obtain cp2 w2
    where r2: "ProcessFile gj (NewChromosomeProcessor inp pre fld (dedup names)) w =
                 (final_result (NewChromosomeProcessor inp pre fld (dedup names)) w, cp2, w2)"
      and f2: "fs w2 = final_fs gj (NewChromosomeProcessor inp pre fld (dedup names)) w"
    by blast
  show ?thesis
    using same by (simp add: r1 r2 f1 f2 dedup_final)
qed

theorem C10_duplicate_names_witness:
  \<open>dedup [''chr1'', ''chr2'', ''chr1''] = [''chr1'', ''chr2'']
   \<and> fst (ProcessFile sample_gjson
          (NewChromosomeProcessor ''in.jsonl'' ''out'' ''chr'' [''chr1'', ''chr2'', ''chr1''])
          (sample_world sample_input)) = None
   \<and> fs (snd (snd (ProcessFile sample_gjson
          (NewChromosomeProcessor ''in.jsonl'' ''out'' ''chr'' [''chr1'', ''chr2'', ''chr1''])
          (sample_world sample_input))))
        ''out_chr1.jsonl'' = Some (''{"chr":"chr1","v":1}'' @ [newline])\<close>
proof -
  have d: "dedup [''chr1'', ''chr2'', ''chr1''] = [''chr1'', ''chr2'']"
    by simp
  note out = New_outputs(2) [OF sample_creatable, of sample_gjson sample_input, folded sample_processor_def]
  then have "fs (snd (snd (ProcessFile sample_gjson sample_processor (sample_world sample_input))))
        (filename sample_processor ''chr1'')
       = Some (emit (routed sample_gjson sample_processor ''chr1''
            (lines_read sample_processor (sample_world sample_input))))"
    by simp
  then have \<open>fs (snd (snd (ProcessFile sample_gjson sample_processor (sample_world sample_input))))
        ''out_chr1.jsonl'' = Some (''{"chr":"chr1","v":1}'' @ [newline])\<close>
    by (simp add: sample_filename sample_lines routed_def sample_routes)
  then show ?thesis
    using C10_duplicate_names [of sample_gjson "''in.jsonl''" "''out''" "''chr''"
        "[''chr1'', ''chr2'', ''chr1'']" "sample_world sample_input", unfolded d,
        folded sample_processor_def] sample_run_ok d
    by simp
qed

end
